theory Spec2Isabelle
  imports Main "HOL-Library.Multiset"
begin

section \<open>Grammar model (Grammar.h)\<close>

text \<open>
  A symbol is a \<^verbatim>\<open>std::string\<close>; the empty string is the empty symbol. A symbol set is a
  \<^verbatim>\<open>std::set\<close> of symbols, a symbol sequence a \<^verbatim>\<open>std::vector\<close>, a rule a pair of a head
  and a body. The rule set is a \<^verbatim>\<open>std::set\<close> of rules; it is modelled by the list of its
  elements in the order the range-based \<^verbatim>\<open>for\<close> visits them.
\<close>

type_synonym symbol = string
type_synonym symbol_set = "symbol set"
type_synonym symbol_sequence = "symbol list"
type_synonym rule = "symbol \<times> symbol_sequence"

record grammar =
  non_terminals :: symbol_set
  terminals :: symbol_set
  rules :: "rule list"
  start :: symbol

definition has_terminal :: "grammar \<Rightarrow> symbol \<Rightarrow> bool" where
  "has_terminal g s = (s \<in> terminals g)"

definition has_non_terminal :: "grammar \<Rightarrow> symbol \<Rightarrow> bool" where
  "has_non_terminal g s = (s \<in> non_terminals g)"

section \<open>FIRST (Grammar::first)\<close>

text \<open>
  Results are options: \<open>None\<close> is a call that never returns (the C++ recursion has no
  bound on its depth). The inner loop of \<^verbatim>\<open>first_single\<close> over the body of one rule:
  a body symbol equal to \<open>symb\<close> is skipped, the scan stops at the first body symbol whose
  FIRST set has no empty string, and reaching the end of the body adds the empty string.
  The parameter \<open>fs\<close> is the recursive call.
\<close>

fun scan_body ::
  "(symbol \<Rightarrow> symbol_set option) \<Rightarrow> symbol \<Rightarrow> symbol_sequence \<Rightarrow> symbol_set
     \<Rightarrow> symbol_set option"
where
  "scan_body fs symb [] first_set = Some (insert [] first_set)"
| "scan_body fs symb (b # bs) first_set =
     (if b = symb then scan_body fs symb bs first_set
      else case fs b of
        None \<Rightarrow> None
      | Some sub_first_set \<Rightarrow>
          (let sub_first_set_had_empty_string = ([] \<in> sub_first_set);
               first_set' = first_set \<union> (sub_first_set - {[]})
           in if sub_first_set_had_empty_string then scan_body fs symb bs first_set'
              else Some first_set'))"

text \<open>The outer loop of \<^verbatim>\<open>first_single\<close> over the rules; only rules with head \<open>symb\<close> count.\<close>

fun scan_rules ::
  "(symbol \<Rightarrow> symbol_set option) \<Rightarrow> symbol \<Rightarrow> rule list \<Rightarrow> symbol_set
     \<Rightarrow> symbol_set option"
where
  "scan_rules fs symb [] first_set = Some first_set"
| "scan_rules fs symb (r # rs) first_set =
     (if fst r = symb
      then case scan_body fs symb (snd r) first_set of
             None \<Rightarrow> None
           | Some first_set' \<Rightarrow> scan_rules fs symb rs first_set'
      else scan_rules fs symb rs first_set)"

lemma case_option_bind:
  "(case x of None \<Rightarrow> None | Some y \<Rightarrow> f y) = Option.bind x f"
  by (cases x) simp_all

lemma scan_body_mono [partial_function_mono]:
  assumes "\<And>b. mono_option (\<lambda>f. F f b)"
  shows "mono_option (\<lambda>f. scan_body (F f) symb bs acc)"
proof (induction bs arbitrary: acc)
  case Nil
  show ?case by (simp add: option.const_mono)
next
  case (Cons b bs)
  show ?case
    unfolding scan_body.simps Let_def case_option_bind
    by (intro partial_function_mono assms Cons.IH)
qed

lemma scan_rules_mono [partial_function_mono]:
  assumes "\<And>b. mono_option (\<lambda>f. F f b)"
  shows "mono_option (\<lambda>f. scan_rules (F f) symb rs acc)"
proof (induction rs arbitrary: acc)
  case Nil
  show ?case by (simp add: option.const_mono)
next
  case (Cons r rs)
  show ?case
    unfolding scan_rules.simps case_option_bind
    by (intro partial_function_mono assms Cons.IH scan_body_mono)
qed

partial_function (option) first_single :: "grammar \<Rightarrow> symbol \<Rightarrow> symbol_set option" where
  "first_single g symb =
     (if symb = [] \<or> has_terminal g symb then Some {symb}
      else scan_rules (first_single g) symb (rules g) {})"

declare first_single.simps [code]

text \<open>The loop of \<^verbatim>\<open>first\<close> over the sequence itself: the same scan, with no symbol skipped.\<close>

fun scan_seq ::
  "(symbol \<Rightarrow> symbol_set option) \<Rightarrow> symbol_sequence \<Rightarrow> symbol_set \<Rightarrow> symbol_set option"
where
  "scan_seq fs [] first_set = Some (insert [] first_set)"
| "scan_seq fs (b # bs) first_set =
     (case fs b of
        None \<Rightarrow> None
      | Some sub_first_set \<Rightarrow>
          (let had_empty_string = ([] \<in> sub_first_set);
               first_set' = first_set \<union> (sub_first_set - {[]})
           in if had_empty_string then scan_seq fs bs first_set'
              else Some first_set'))"

definition first :: "grammar \<Rightarrow> symbol_sequence \<Rightarrow> symbol_set option" where
  "first g seq = (if seq = [] then Some {} else scan_seq (first_single g) seq {})"

section \<open>FOLLOW (Grammar::follow)\<close>

text \<open>
  \<^verbatim>\<open>std::find\<close> and the construction of \<^verbatim>\<open>after\<close>: the symbols behind the first
  occurrence of \<open>nt\<close> in a body, \<open>None\<close> when \<open>nt\<close> does not occur.
\<close>

fun find_after :: "symbol \<Rightarrow> symbol_sequence \<Rightarrow> symbol_sequence option" where
  "find_after nt [] = None"
| "find_after nt (b # bs) = (if b = nt then Some bs else find_after nt bs)"

text \<open>
  The loop of \<^verbatim>\<open>follow\<close> over the rules; \<open>fi\<close> is the call of \<^verbatim>\<open>first\<close> and \<open>fl\<close> the
  recursive call of \<^verbatim>\<open>follow\<close>.
\<close>

fun follow_rules ::
  "(symbol_sequence \<Rightarrow> symbol_set option) \<Rightarrow> (symbol \<Rightarrow> symbol_set option) \<Rightarrow> symbol
     \<Rightarrow> rule list \<Rightarrow> symbol_set \<Rightarrow> symbol_set option"
where
  "follow_rules fi fl nt [] follow_set = Some follow_set"
| "follow_rules fi fl nt (r # rs) follow_set =
     (if fst r = nt then follow_rules fi fl nt rs follow_set
      else case find_after nt (snd r) of
        None \<Rightarrow> follow_rules fi fl nt rs follow_set
      | Some after \<Rightarrow>
          (case fi after of
             None \<Rightarrow> None
           | Some first_of_after \<Rightarrow>
               (let first_of_after_had_empty_string = ([] \<in> first_of_after);
                    follow_set' = follow_set \<union> (first_of_after - {[]})
                in if after = [] \<or> first_of_after_had_empty_string
                   then case fl (fst r) of
                          None \<Rightarrow> None
                        | Some sub_follow_set \<Rightarrow>
                            follow_rules fi fl nt rs (follow_set' \<union> sub_follow_set)
                   else follow_rules fi fl nt rs follow_set')))"

lemma follow_rules_mono [partial_function_mono]:
  assumes "\<And>b. mono_option (\<lambda>f. F f b)"
  shows "mono_option (\<lambda>f. follow_rules fi (F f) nt rs acc)"
proof (induction rs arbitrary: acc)
  case Nil
  show ?case by (simp add: option.const_mono)
next
  case (Cons r rs)
  show ?case
  proof (cases "find_after nt (snd r)")
    case None
    then show ?thesis
      unfolding follow_rules.simps
      by (auto intro!: partial_function_mono Cons.IH)
  next
    case (Some after)
    then show ?thesis
      unfolding follow_rules.simps Let_def case_option_bind
      by (auto intro!: partial_function_mono assms Cons.IH)
  qed
qed

partial_function (option) follow :: "grammar \<Rightarrow> symbol \<Rightarrow> symbol_set option" where
  "follow g nt =
     follow_rules (first g) (follow g) nt (rules g) (if nt = start g then {[]} else {})"

declare follow.simps [code]

section \<open>A call stack of bounded depth\<close>

text \<open>
  The recursion of \<^verbatim>\<open>first_single\<close> (line 55) and of \<^verbatim>\<open>follow\<close> (line 131) is not tail
  recursion: every nested call holds a stack frame. The same three functions again, with
  the number \<open>d\<close> of frames the stack still holds: a call needs one frame and leaves
  \<open>d - 1\<close> frames to the calls it makes; with no frame left the call does not return a
  set (\<open>None\<close>). The loops are the ones above.
\<close>

fun first_single_d :: "nat \<Rightarrow> grammar \<Rightarrow> symbol \<Rightarrow> symbol_set option" where
  "first_single_d 0 g symb = None"
| "first_single_d (Suc d) g symb =
     (if symb = [] \<or> has_terminal g symb then Some {symb}
      else scan_rules (first_single_d d g) symb (rules g) {})"

fun first_d :: "nat \<Rightarrow> grammar \<Rightarrow> symbol_sequence \<Rightarrow> symbol_set option" where
  "first_d 0 g seq = None"
| "first_d (Suc d) g seq =
     (if seq = [] then Some {} else scan_seq (first_single_d d g) seq {})"

fun follow_d :: "nat \<Rightarrow> grammar \<Rightarrow> symbol \<Rightarrow> symbol_set option" where
  "follow_d 0 g nt = None"
| "follow_d (Suc d) g nt =
     follow_rules (first_d d g) (follow_d d g) nt (rules g)
       (if nt = start g then {[]} else {})"

section \<open>The grammars of the scenarios\<close>

text \<open>Rules \<open>S = A b\<close>, \<open>A = a\<close>, \<open>A = \<epsilon>\<close>, in the order of the rule set.\<close>

definition G1 :: grammar where
  "G1 = \<lparr> non_terminals = {''S'', ''A''}, terminals = {''a'', ''b''},
     rules = [(''A'', []), (''A'', [''a'']), (''S'', [''A'', ''b''])], start = ''S'' \<rparr>"

text \<open>Direct left recursion: \<open>S = S a\<close>, \<open>S = b\<close>.\<close>

definition G2 :: grammar where
  "G2 = \<lparr> non_terminals = {''S''}, terminals = {''a'', ''b''},
     rules = [(''S'', [''S'', ''a'']), (''S'', [''b''])], start = ''S'' \<rparr>"

text \<open>A cycle through two non-terminals: \<open>S = A\<close>, \<open>A = S\<close>, \<open>A = \<epsilon>\<close>.\<close>

definition G3 :: grammar where
  "G3 = \<lparr> non_terminals = {''S'', ''A''}, terminals = {},
     rules = [(''A'', []), (''A'', [''S'']), (''S'', [''A''])], start = ''S'' \<rparr>"

text \<open>A body with two occurrences of the same non-terminal: \<open>S = A a A b\<close>, \<open>A = a\<close>.\<close>

definition G4 :: grammar where
  "G4 = \<lparr> non_terminals = {''S'', ''A''}, terminals = {''a'', ''b''},
     rules = [(''A'', [''a'']), (''S'', [''A'', ''a'', ''A'', ''b''])], start = ''S'' \<rparr>"

text \<open>The empty string declared as a terminal, as the terminal line \<^verbatim>\<open>"" a\<close> is read.\<close>

definition G5 :: grammar where
  "G5 = \<lparr> non_terminals = {''S''}, terminals = {[], ''a''},
     rules = [(''S'', [''a''])], start = ''S'' \<rparr>"

text \<open>A declared non-terminal \<open>N\<close> with no rule: \<open>A = \<epsilon>\<close>, \<open>S = A N a\<close>.\<close>

definition G6 :: grammar where
  "G6 = \<lparr> non_terminals = {''S'', ''A'', ''N''}, terminals = {''a''},
     rules = [(''A'', []), (''S'', [''A'', ''N'', ''a''])], start = ''S'' \<rparr>"

text \<open>A declared non-terminal \<open>N\<close> with no rule, in a grammar with a cycle: \<open>A = N\<close>, \<open>A = S\<close>, \<open>S = A\<close>.\<close>

definition G7 :: grammar where
  "G7 = \<lparr> non_terminals = {''S'', ''A'', ''N''}, terminals = {},
     rules = [(''A'', [''N'']), (''A'', [''S'']), (''S'', [''A''])], start = ''S'' \<rparr>"

text \<open>Two non-terminals at the end of each other's rule: \<open>A = a B\<close>, \<open>B = b A\<close>.\<close>

definition G9 :: grammar where
  "G9 = \<lparr> non_terminals = {''A'', ''B''}, terminals = {''a'', ''b''},
     rules = [(''A'', [''a'', ''B'']), (''B'', [''b'', ''A''])], start = ''A'' \<rparr>"

text \<open>A symbol declared both as a terminal and as a non-terminal.\<close>

definition G8 :: grammar where
  "G8 = \<lparr> non_terminals = {''S''}, terminals = {''S'', ''a''},
     rules = [(''S'', [''a''])], start = ''S'' \<rparr>"

text \<open>
  The expression grammar \<open>E = T Ep\<close>, \<open>Ep = + T Ep\<close>, \<open>Ep = \<epsilon>\<close>, \<open>T = F Tp\<close>, \<open>Tp = * F Tp\<close>,
  \<open>Tp = \<epsilon>\<close>, \<open>F = ( E )\<close>, \<open>F = id\<close>, in the order of the rule set.
\<close>

definition GE :: grammar where
  "GE = \<lparr> non_terminals = {''E'', ''Ep'', ''T'', ''Tp'', ''F''},
     terminals = {''+'', ''*'', ''('', '')'', ''id''},
     rules = [(''E'', [''T'', ''Ep'']),
              (''Ep'', []), (''Ep'', [''+'', ''T'', ''Ep'']),
              (''F'', [''('', ''E'', '')'']), (''F'', [''id'']),
              (''T'', [''F'', ''Tp'']),
              (''Tp'', []), (''Tp'', [''*'', ''F'', ''Tp''])],
     start = ''E'' \<rparr>"

section \<open>Symbols outside the grammar, non-terminals without rules\<close>

text \<open>
  A symbol that is not present in the grammar: not the start symbol, not declared, and in
  no rule. A declared non-terminal with zero rules: declared as a non-terminal only, not
  the empty symbol, and the head of no rule.
\<close>

definition absent :: "grammar \<Rightarrow> symbol \<Rightarrow> bool" where
  "absent g s =
     (s \<noteq> start g \<and> \<not> has_terminal g s \<and> \<not> has_non_terminal g s \<and>
      (\<forall>r\<in>set (rules g). s \<noteq> fst r \<and> s \<notin> set (snd r)))"

definition without_rules :: "grammar \<Rightarrow> symbol \<Rightarrow> bool" where
  "without_rules g n =
     (has_non_terminal g n \<and> \<not> has_terminal g n \<and> n \<noteq> [] \<and>
      (\<forall>r\<in>set (rules g). fst r \<noteq> n))"

section \<open>The nested calls, ranked\<close>

text \<open>Whether a returned set holds the empty string (line 57); a call that does not return holds nothing.\<close>

definition has_empty_string :: "symbol_set option \<Rightarrow> bool" where
  "has_empty_string res = (case res of None \<Rightarrow> False | Some s \<Rightarrow> [] \<in> s)"

text \<open>
  The calls \<^verbatim>\<open>first_single\<close> makes while it scans one body of a rule of \<open>h\<close>: one for each body
  symbol other than \<open>h\<close>, up to and including the first whose FIRST set has no empty
  string. \<open>body_ranked\<close> says that each of these calls goes to a symbol of the set \<open>D\<close> that
  ranks strictly below \<open>h\<close>.
\<close>

fun body_ranked ::
  "grammar \<Rightarrow> symbol set \<Rightarrow> (symbol \<Rightarrow> nat) \<Rightarrow> symbol \<Rightarrow> symbol_sequence \<Rightarrow> bool"
where
  "body_ranked g D rk h [] = True"
| "body_ranked g D rk h (b # bs) =
     (if b = h then body_ranked g D rk h bs
      else b \<in> D \<and> rk b < rk h \<and>
        (if has_empty_string (first_single g b) then body_ranked g D rk h bs else True))"

text \<open>
  A ranking \<open>rk\<close> of a set \<open>D\<close> of symbols for \<^verbatim>\<open>first_single\<close>: every nested call that
  \<^verbatim>\<open>first_single\<close> makes for a symbol of \<open>D\<close> goes to a symbol of \<open>D\<close> of lower rank. Rules whose
  head is the empty string or a declared terminal are never scanned, and symbols outside
  \<open>D\<close> are left alone.
\<close>

definition first_ranked :: "grammar \<Rightarrow> symbol set \<Rightarrow> (symbol \<Rightarrow> nat) \<Rightarrow> bool" where
  "first_ranked g D rk =
     (\<forall>r\<in>set (rules g).
        fst r \<notin> D \<or> fst r = [] \<or> has_terminal g (fst r) \<or>
        body_ranked g D rk (fst r) (snd r))"

text \<open>
  The calls \<^verbatim>\<open>first\<close> makes on a sequence, one for each symbol up to and including the first
  whose FIRST set has no empty string, all go to symbols of \<open>D\<close>.
\<close>

fun seq_ranked :: "grammar \<Rightarrow> symbol set \<Rightarrow> symbol_sequence \<Rightarrow> bool" where
  "seq_ranked g D [] = True"
| "seq_ranked g D (b # bs) =
     (b \<in> D \<and> (if has_empty_string (first_single g b) then seq_ranked g D bs else True))"

text \<open>
  The calls \<^verbatim>\<open>follow\<close> makes for one rule in whose body it finds \<open>nt\<close>: \<^verbatim>\<open>first\<close> of the rest of
  the body, and \<^verbatim>\<open>follow\<close> of the head when that rest is empty or its FIRST set has the empty
  string. \<open>follow_calls_return\<close> says that these calls return.
\<close>

definition follow_calls_return ::
  "(symbol_sequence \<Rightarrow> symbol_set option) \<Rightarrow> (symbol \<Rightarrow> symbol_set option) \<Rightarrow> symbol \<Rightarrow> rule
     \<Rightarrow> bool"
where
  "follow_calls_return fi fl nt r =
     (case find_after nt (snd r) of
        None \<Rightarrow> True
      | Some after \<Rightarrow>
          (case fi after of
             None \<Rightarrow> False
           | Some first_of_after \<Rightarrow>
               if after = [] \<or> [] \<in> first_of_after then fl (fst r) \<noteq> None else True))"

text \<open>
  A ranking \<open>rk\<close> of a set \<open>D\<close> of symbols for \<^verbatim>\<open>follow\<close>: for every symbol \<open>nt\<close> of \<open>D\<close> and
  every rule with another head in whose body \<open>nt\<close> is found, the call of \<^verbatim>\<open>first\<close> returns
  within \<open>d\<close> frames, and the nested call of \<^verbatim>\<open>follow\<close>, when it is made, goes to a head in \<open>D\<close>
  of lower rank.
\<close>

definition follow_ranked :: "nat \<Rightarrow> grammar \<Rightarrow> symbol set \<Rightarrow> (symbol \<Rightarrow> nat) \<Rightarrow> bool" where
  "follow_ranked d g D rk =
     (\<forall>r\<in>set (rules g). \<forall>nt\<in>set (snd r).
        nt \<notin> D \<or> nt = fst r \<or>
        (case find_after nt (snd r) of
           None \<Rightarrow> True
         | Some after \<Rightarrow>
             (case first_d d g after of
                None \<Rightarrow> False
              | Some first_of_after \<Rightarrow>
                  if after = [] \<or> [] \<in> first_of_after
                  then fst r \<in> D \<and> rk (fst r) < rk nt else True)))"

text \<open>The symbols of the expression grammar and rankings of them.\<close>

definition GE_symbols :: "symbol set" where
  "GE_symbols = {''E'', ''Ep'', ''T'', ''Tp'', ''F'', ''+'', ''*'', ''('', '')'', ''id''}"

definition GE_first_rank :: "symbol \<Rightarrow> nat" where
  "GE_first_rank s =
     (if s = ''E'' then 3 else if s = ''T'' then 2
      else if s = ''F'' \<or> s = ''Ep'' \<or> s = ''Tp'' then 1 else 0)"

definition GE_follow_rank :: "symbol \<Rightarrow> nat" where
  "GE_follow_rank s =
     (if s = ''E'' then 0 else if s = ''Ep'' then 1 else if s = ''T'' then 2
      else if s = ''Tp'' then 3 else if s = ''F'' then 4 else 5)"

section \<open>What one rule adds to the result of follow\<close>


section \<open>Properties of the loops of first\<close>

lemma option_eqI:
  assumes "\<And>y. a = Some y \<Longrightarrow> b = Some y" and "\<And>y. b = Some y \<Longrightarrow> a = Some y"
  shows "a = b"
  using assms by (cases a; cases b) auto

lemma scan_body_acc:
  "scan_body fs symb bs acc = map_option (\<lambda>s. acc \<union> s) (scan_body fs symb bs {})"
proof (induction bs arbitrary: acc)
  case Nil
  show ?case by simp
next
  case (Cons b bs)
  show ?case
  proof (cases "b = symb")
    case True
    then show ?thesis using Cons.IH [of acc] by simp
  next
    case False
    show ?thesis
    proof (cases "fs b")
      case None
      then show ?thesis using False by simp
    next
      case (Some sub)
      show ?thesis
        using False Some Cons.IH [of "acc \<union> (sub - {[]})"] Cons.IH [of "sub - {[]}"]
        by (cases "scan_body fs symb bs {}") (auto simp: Let_def)
    qed
  qed
qed

lemma scan_rules_Cons:
  "scan_rules fs symb (r # rs) acc =
     (case scan_rules fs symb [r] {} of
        None \<Rightarrow> None
      | Some c \<Rightarrow> scan_rules fs symb rs (acc \<union> c))"
  using scan_body_acc [of fs symb "snd r" acc]
  by (cases "scan_body fs symb (snd r) {}") auto

lemma scan_rules_set:
  "scan_rules fs symb rs acc =
     (if None \<in> (\<lambda>r. scan_rules fs symb [r] {}) ` set rs then None
      else Some (acc \<union> (\<Union>r\<in>set rs. the (scan_rules fs symb [r] {}))))"
proof (induction rs arbitrary: acc)
  case Nil
  show ?case by simp
next
  case (Cons r rs)
  show ?case
  proof (cases "scan_rules fs symb [r] {}")
    case None
    then show ?thesis by (subst scan_rules_Cons) (simp del: scan_rules.simps)
  next
    case (Some c)
    then show ?thesis
      by (subst scan_rules_Cons)
         (auto simp del: scan_rules.simps simp add: Cons.IH [of "acc \<union> c"])
  qed
qed

lemma scan_rules_set_cong:
  "set rs = set rs' \<Longrightarrow> scan_rules fs symb rs acc = scan_rules fs symb rs' acc"
  by (simp add: scan_rules_set [of fs symb rs] scan_rules_set [of fs symb rs'])

lemma scan_body_le:
  assumes "\<And>b z. f1 b = Some z \<Longrightarrow> f2 b = Some z"
  shows "scan_body f1 symb bs acc = Some y \<Longrightarrow> scan_body f2 symb bs acc = Some y"
proof (induction bs arbitrary: acc)
  case Nil
  then show ?case by simp
next
  case (Cons b bs)
  then show ?case
    by (auto simp: Let_def split: if_splits option.splits dest: assms)
qed

lemma scan_rules_le:
  assumes "\<And>b z. f1 b = Some z \<Longrightarrow> f2 b = Some z"
  shows "scan_rules f1 symb rs acc = Some y \<Longrightarrow> scan_rules f2 symb rs acc = Some y"
proof (induction rs arbitrary: acc)
  case Nil
  then show ?case by simp
next
  case (Cons r rs)
  show ?case
  proof (cases "fst r = symb")
    case True
    then obtain c where c: "scan_body f1 symb (snd r) acc = Some c"
      and rest: "scan_rules f1 symb rs c = Some y"
      using Cons.prems by (auto split: option.splits)
    have "scan_body f2 symb (snd r) acc = Some c"
      using assms c by (rule scan_body_le [of f1 f2])
    then show ?thesis using True Cons.IH [OF rest] by simp
  next
    case False
    then show ?thesis using Cons.prems Cons.IH [of acc] by simp
  qed
qed

lemma scan_seq_le:
  assumes "\<And>b z. f1 b = Some z \<Longrightarrow> f2 b = Some z"
  shows "scan_seq f1 bs acc = Some y \<Longrightarrow> scan_seq f2 bs acc = Some y"
proof (induction bs arbitrary: acc)
  case Nil
  then show ?case by simp
next
  case (Cons b bs)
  then show ?case
    by (auto simp: Let_def split: if_splits option.splits dest: assms)
qed

lemma first_single_rules_set:
  "first_single g symb = Some y \<Longrightarrow> terminals g' = terminals g \<Longrightarrow>
     set (rules g') = set (rules g) \<Longrightarrow> first_single g' symb = Some y"
proof (induction g symb y arbitrary: g' rule: first_single.raw_induct [rotated, consumes 1])
  case (1 f g symb y)
  show ?case
  proof (cases "symb = [] \<or> has_terminal g symb")
    case True
    then show ?thesis
      using "1.hyps" "1.prems"(1) by (subst first_single.simps) (auto simp: has_terminal_def)
  next
    case False
    then have "scan_rules (f g) symb (rules g) {} = Some y"
      using "1.hyps" by simp
    then have "scan_rules (f g) symb (rules g') {} = Some y"
      using "1.prems"(2) scan_rules_set_cong [of "rules g'" "rules g"] by simp
    then have "scan_rules (first_single g') symb (rules g') {} = Some y"
    proof (rule scan_rules_le [of "f g" "first_single g'", rotated])
      fix b z
      assume "f g b = Some z"
      then show "first_single g' b = Some z"
        using "1.prems" by (rule "1.IH")
    qed
    then show ?thesis
      using False "1.prems"(1) by (subst first_single.simps) (simp add: has_terminal_def)
  qed
qed

lemma first_single_rules_eq:
  assumes "terminals g' = terminals g" and "set (rules g') = set (rules g)"
  shows "first_single g' symb = first_single g symb"
proof (rule option_eqI)
  fix y
  assume "first_single g' symb = Some y"
  then show "first_single g symb = Some y"
    by (rule first_single_rules_set) (simp_all add: assms)
next
  fix y
  assume "first_single g symb = Some y"
  then show "first_single g' symb = Some y"
    by (rule first_single_rules_set) (simp_all add: assms)
qed

lemma first_rules_eq:
  assumes "terminals g' = terminals g" and "set (rules g') = set (rules g)"
  shows "first g' seq = first g seq"
proof -
  have "first_single g' = first_single g"
    using first_single_rules_eq [OF assms] by (rule ext)
  then show ?thesis by (simp add: first_def)
qed

section \<open>Properties of the loop of follow\<close>

lemma find_after_None: "find_after nt bs = None \<longleftrightarrow> nt \<notin> set bs"
  by (induction bs) auto

lemma follow_rules_Cons:
  "follow_rules fi fl nt (r # rs) acc =
     (case follow_rules fi fl nt [r] {} of
        None \<Rightarrow> None
      | Some c \<Rightarrow> follow_rules fi fl nt rs (acc \<union> c))"
  by (auto simp: Let_def Un_assoc split: option.splits)

lemma follow_rules_set:
  "follow_rules fi fl nt rs acc =
     (if None \<in> (\<lambda>r. follow_rules fi fl nt [r] {}) ` set rs then None
      else Some (acc \<union> (\<Union>r\<in>set rs. the (follow_rules fi fl nt [r] {}))))"
proof (induction rs arbitrary: acc)
  case Nil
  show ?case by simp
next
  case (Cons r rs)
  show ?case
  proof (cases "follow_rules fi fl nt [r] {}")
    case None
    then show ?thesis by (subst follow_rules_Cons) (simp del: follow_rules.simps)
  next
    case (Some c)
    then show ?thesis
      by (subst follow_rules_Cons)
         (auto simp del: follow_rules.simps simp add: Cons.IH [of "acc \<union> c"])
  qed
qed

lemma follow_rules_set_cong:
  "set rs = set rs' \<Longrightarrow> follow_rules fi fl nt rs acc = follow_rules fi fl nt rs' acc"
  by (simp add: follow_rules_set [of fi fl nt rs] follow_rules_set [of fi fl nt rs'])

lemma follow_rules_le:
  assumes "\<And>b z. f1 b = Some z \<Longrightarrow> f2 b = Some z"
  shows "follow_rules fi f1 nt rs acc = Some y \<Longrightarrow> follow_rules fi f2 nt rs acc = Some y"
proof (induction rs arbitrary: acc)
  case Nil
  then show ?case by simp
next
  case (Cons r rs)
  show ?case
  proof (cases "follow_rules fi f1 nt [r] {}")
    case None
    then show ?thesis
      using Cons.prems by (subst (asm) follow_rules_Cons) (simp del: follow_rules.simps)
  next
    case (Some c)
    then have "follow_rules fi f2 nt [r] {} = Some c"
      using assms by (auto simp: Let_def split: if_splits option.splits)
    moreover have "follow_rules fi f1 nt rs (acc \<union> c) = Some y"
      using Cons.prems Some
      by (subst (asm) follow_rules_Cons) (simp del: follow_rules.simps)
    ultimately show ?thesis
      using Cons.IH [of "acc \<union> c"]
      by (subst follow_rules_Cons) (simp del: follow_rules.simps)
  qed
qed

lemma follow_rules_set_le:
  "follow g nt = Some y \<Longrightarrow> terminals g' = terminals g \<Longrightarrow>
     set (rules g') = set (rules g) \<Longrightarrow> start g' = start g \<Longrightarrow> follow g' nt = Some y"
proof (induction g nt y arbitrary: g' rule: follow.raw_induct [rotated, consumes 1])
  case (1 f g nt y)
  let ?init = "if nt = start g then {[]} else {}"
  have "follow_rules (first g) (f g) nt (rules g') ?init = Some y"
    using "1.hyps" "1.prems"(2) follow_rules_set_cong [of "rules g'" "rules g"] by simp
  then have "follow_rules (first g) (follow g') nt (rules g') ?init = Some y"
  proof (rule follow_rules_le [of "f g" "follow g'", rotated])
    fix b z
    assume "f g b = Some z"
    then show "follow g' b = Some z"
      using "1.prems" by (rule "1.IH")
  qed
  moreover have "first g' = first g"
    using first_rules_eq [OF "1.prems"(1,2)] by (rule ext)
  ultimately have "follow_rules (first g') (follow g') nt (rules g') ?init = Some y"
    by simp
  then show ?case
    using "1.prems"(3) by (subst follow.simps) simp
qed

lemma follow_rules_eq:
  assumes "terminals g' = terminals g" and "set (rules g') = set (rules g)"
    and "start g' = start g"
  shows "follow g' nt = follow g nt"
proof (rule option_eqI)
  fix y
  assume "follow g' nt = Some y"
  then show "follow g nt = Some y"
    by (rule follow_rules_set_le) (simp_all add: assms)
next
  fix y
  assume "follow g nt = Some y"
  then show "follow g' nt = Some y"
    by (rule follow_rules_set_le) (simp_all add: assms)
qed

section \<open>The bounded stack against the unbounded one\<close>

text \<open>
  A call that returns with \<open>d\<close> frames returns the same set with more frames, and with no
  bound on the stack.
\<close>

lemma first_single_d_mono:
  "first_single_d d g symb = Some y \<Longrightarrow> d \<le> d' \<Longrightarrow> first_single_d d' g symb = Some y"
proof (induction d arbitrary: d' symb y)
  case 0
  then show ?case by simp
next
  case (Suc d)
  then obtain e where e: "d' = Suc e" and le: "d \<le> e"
    by (cases d') auto
  show ?case
  proof (cases "symb = [] \<or> has_terminal g symb")
    case True
    then show ?thesis using Suc.prems(1) e by simp
  next
    case False
    then have "scan_rules (first_single_d d g) symb (rules g) {} = Some y"
      using Suc.prems(1) by simp
    then have "scan_rules (first_single_d e g) symb (rules g) {} = Some y"
    proof (rule scan_rules_le [rotated])
      fix b z
      assume "first_single_d d g b = Some z"
      then show "first_single_d e g b = Some z" using le by (rule Suc.IH)
    qed
    then show ?thesis using False e by simp
  qed
qed

lemma first_single_d_sound:
  "first_single_d d g symb = Some y \<Longrightarrow> first_single g symb = Some y"
proof (induction d arbitrary: symb y)
  case 0
  then show ?case by simp
next
  case (Suc d)
  show ?case
  proof (cases "symb = [] \<or> has_terminal g symb")
    case True
    then show ?thesis using Suc.prems by (subst first_single.simps) simp
  next
    case False
    then have "scan_rules (first_single_d d g) symb (rules g) {} = Some y"
      using Suc.prems by simp
    then have "scan_rules (first_single g) symb (rules g) {} = Some y"
      by (rule scan_rules_le [rotated]) (rule Suc.IH)
    then show ?thesis using False by (subst first_single.simps) simp
  qed
qed

lemma first_d_mono:
  assumes "first_d d g seq = Some y" and "d \<le> d'"
  shows "first_d d' g seq = Some y"
proof -
  obtain c where c: "d = Suc c" using assms(1) by (cases d) auto
  then obtain e where e: "d' = Suc e" and le: "c \<le> e"
    using assms(2) by (cases d') auto
  show ?thesis
  proof (cases "seq = []")
    case True
    then show ?thesis using assms(1) c e by simp
  next
    case False
    then have "scan_seq (first_single_d c g) seq {} = Some y"
      using assms(1) c by simp
    then have "scan_seq (first_single_d e g) seq {} = Some y"
    proof (rule scan_seq_le [rotated])
      fix b z
      assume "first_single_d c g b = Some z"
      then show "first_single_d e g b = Some z" using le by (rule first_single_d_mono)
    qed
    then show ?thesis using False e by simp
  qed
qed

lemma first_d_sound:
  assumes "first_d d g seq = Some y"
  shows "first g seq = Some y"
proof -
  obtain c where c: "d = Suc c" using assms by (cases d) auto
  show ?thesis
  proof (cases "seq = []")
    case True
    then show ?thesis using assms c by (simp add: first_def)
  next
    case False
    then have "scan_seq (first_single_d c g) seq {} = Some y"
      using assms c by simp
    then have "scan_seq (first_single g) seq {} = Some y"
      by (rule scan_seq_le [rotated]) (rule first_single_d_sound)
    then show ?thesis using False by (simp add: first_def)
  qed
qed

lemma follow_rules_le2:
  assumes "\<And>b z. f1 b = Some z \<Longrightarrow> f2 b = Some z"
    and "\<And>s z. i1 s = Some z \<Longrightarrow> i2 s = Some z"
  shows "follow_rules i1 f1 nt rs acc = Some y \<Longrightarrow> follow_rules i2 f2 nt rs acc = Some y"
proof (induction rs arbitrary: acc)
  case Nil
  then show ?case by simp
next
  case (Cons r rs)
  show ?case
  proof (cases "follow_rules i1 f1 nt [r] {}")
    case None
    then show ?thesis
      using Cons.prems by (subst (asm) follow_rules_Cons) (simp del: follow_rules.simps)
  next
    case (Some c)
    then have "follow_rules i2 f2 nt [r] {} = Some c"
      using assms by (auto simp: Let_def split: if_splits option.splits)
    moreover have "follow_rules i1 f1 nt rs (acc \<union> c) = Some y"
      using Cons.prems Some
      by (subst (asm) follow_rules_Cons) (simp del: follow_rules.simps)
    ultimately show ?thesis
      using Cons.IH [of "acc \<union> c"]
      by (subst follow_rules_Cons) (simp del: follow_rules.simps)
  qed
qed

lemma follow_d_mono:
  "follow_d d g nt = Some y \<Longrightarrow> d \<le> d' \<Longrightarrow> follow_d d' g nt = Some y"
proof (induction d arbitrary: d' nt y)
  case 0
  then show ?case by simp
next
  case (Suc d)
  then obtain e where e: "d' = Suc e" and le: "d \<le> e"
    by (cases d') auto
  let ?init = "if nt = start g then {[]} else {}"
  have "follow_rules (first_d d g) (follow_d d g) nt (rules g) ?init = Some y"
    using Suc.prems(1) by simp
  then have "follow_rules (first_d e g) (follow_d e g) nt (rules g) ?init = Some y"
  proof (rule follow_rules_le2 [rotated 2])
    fix b z
    assume "follow_d d g b = Some z"
    then show "follow_d e g b = Some z" using le by (rule Suc.IH)
  next
    fix s z
    assume "first_d d g s = Some z"
    then show "first_d e g s = Some z" using le by (rule first_d_mono)
  qed
  then show ?case using e by simp
qed

lemma follow_d_sound:
  "follow_d d g nt = Some y \<Longrightarrow> follow g nt = Some y"
proof (induction d arbitrary: nt y)
  case 0
  then show ?case by simp
next
  case (Suc d)
  let ?init = "if nt = start g then {[]} else {}"
  have "follow_rules (first_d d g) (follow_d d g) nt (rules g) ?init = Some y"
    using Suc.prems by simp
  then have "follow_rules (first g) (follow g) nt (rules g) ?init = Some y"
  proof (rule follow_rules_le2 [rotated 2])
    fix b z
    assume "follow_d d g b = Some z"
    then show "follow g b = Some z" by (rule Suc.IH)
  next
    fix s z
    assume "first_d d g s = Some z"
    then show "first g s = Some z" by (rule first_d_sound)
  qed
  then show ?case by (subst follow.simps)
qed

section \<open>The results hold terminals and the empty symbol only\<close>

lemma scan_body_sub:
  assumes "\<And>b z. fs b = Some z \<Longrightarrow> z \<subseteq> T" and "[] \<in> T"
  shows "acc \<subseteq> T \<Longrightarrow> scan_body fs symb bs acc = Some y \<Longrightarrow> y \<subseteq> T"
proof (induction bs arbitrary: acc)
  case Nil
  then show ?case using assms(2) by auto
next
  case (Cons b bs)
  show ?case
  proof (cases "b = symb")
    case True
    then show ?thesis using Cons by simp
  next
    case False
    then obtain sub where sub: "fs b = Some sub"
      using Cons.prems(2) by (auto split: option.splits)
    then have "acc \<union> (sub - {[]}) \<subseteq> T"
      using assms(1) Cons.prems(1) by blast
    then show ?thesis
      using False sub Cons.prems(2) Cons.IH [of "acc \<union> (sub - {[]})"]
      by (auto simp: Let_def split: if_splits)
  qed
qed

lemma scan_rules_sub:
  assumes "\<And>b z. fs b = Some z \<Longrightarrow> z \<subseteq> T" and "[] \<in> T"
  shows "acc \<subseteq> T \<Longrightarrow> scan_rules fs symb rs acc = Some y \<Longrightarrow> y \<subseteq> T"
proof (induction rs arbitrary: acc)
  case Nil
  then show ?case by simp
next
  case (Cons r rs)
  show ?case
  proof (cases "fst r = symb")
    case True
    then obtain c where c: "scan_body fs symb (snd r) acc = Some c"
      and rest: "scan_rules fs symb rs c = Some y"
      using Cons.prems(2) by (auto split: option.splits)
    have "c \<subseteq> T"
      using assms Cons.prems(1) c by (rule scan_body_sub [of fs T])
    then show ?thesis using rest by (rule Cons.IH)
  next
    case False
    then show ?thesis using Cons by simp
  qed
qed

lemma scan_seq_sub:
  assumes "\<And>b z. fs b = Some z \<Longrightarrow> z \<subseteq> T" and "[] \<in> T"
  shows "acc \<subseteq> T \<Longrightarrow> scan_seq fs bs acc = Some y \<Longrightarrow> y \<subseteq> T"
proof (induction bs arbitrary: acc)
  case Nil
  then show ?case using assms(2) by auto
next
  case (Cons b bs)
  then obtain sub where sub: "fs b = Some sub"
    by (auto split: option.splits)
  then have "acc \<union> (sub - {[]}) \<subseteq> T"
    using assms(1) Cons.prems(1) by blast
  then show ?case
    using sub Cons.prems(2) Cons.IH [of "acc \<union> (sub - {[]})"]
    by (auto simp: Let_def split: if_splits)
qed

lemma first_single_sub:
  "first_single g symb = Some y \<Longrightarrow> y \<subseteq> insert [] (terminals g)"
proof (induction g symb y rule: first_single.raw_induct [rotated, consumes 1])
  case (1 f g symb y)
  show ?case
  proof (cases "symb = [] \<or> has_terminal g symb")
    case True
    then show ?thesis using "1.hyps" by (auto simp: has_terminal_def)
  next
    case False
    then have "scan_rules (f g) symb (rules g) {} = Some y"
      using "1.hyps" by simp
    then show ?thesis
      using "1.IH" by (intro scan_rules_sub [of "f g" _ "{}" symb "rules g" y]) auto
  qed
qed

lemma first_sub: "first g seq = Some y \<Longrightarrow> y \<subseteq> insert [] (terminals g)"
proof (cases "seq = []")
  case True
  assume "first g seq = Some y"
  then show ?thesis using True by (simp add: first_def)
next
  case False
  assume "first g seq = Some y"
  then have "scan_seq (first_single g) seq {} = Some y"
    using False by (simp add: first_def)
  then show ?thesis
    using first_single_sub
    by (intro scan_seq_sub [of "first_single g" _ "{}" seq y]) auto
qed

lemma follow_rules_sub:
  assumes "\<And>b z. fl b = Some z \<Longrightarrow> z \<subseteq> insert [] (terminals g)"
    and "\<And>seq z. fi seq = Some z \<Longrightarrow> z \<subseteq> insert [] (terminals g)"
  shows "acc \<subseteq> insert [] (terminals g) \<Longrightarrow> follow_rules fi fl nt rs acc = Some y \<Longrightarrow>
    y \<subseteq> insert [] (terminals g)"
proof (induction rs arbitrary: acc)
  case Nil
  then show ?case by simp
next
  case (Cons r rs)
  obtain c where c: "follow_rules fi fl nt [r] {} = Some c"
    and rest: "follow_rules fi fl nt rs (acc \<union> c) = Some y"
    using Cons.prems(2)
    by (subst (asm) follow_rules_Cons) (auto simp del: follow_rules.simps split: option.splits)
  have "c \<subseteq> insert [] (terminals g)"
  proof (cases "fst r = nt \<or> find_after nt (snd r) = None")
    case True
    then have "c = {}" using c by (auto split: if_splits)
    then show ?thesis by simp
  next
    case False
    then obtain after where after: "find_after nt (snd r) = Some after" by auto
    then obtain foa where foa: "fi after = Some foa"
      using False c by (auto split: option.splits)
    then have foa_sub: "foa \<subseteq> insert [] (terminals g)" by (rule assms(2))
    show ?thesis
    proof (cases "after = [] \<or> [] \<in> foa")
      case True
      then obtain sub where sub: "fl (fst r) = Some sub"
        using False after foa c by (auto simp: Let_def split: option.splits)
      then have "sub \<subseteq> insert [] (terminals g)" by (rule assms(1))
      moreover have "c = foa - {[]} \<union> sub"
        using False True after foa sub c by (auto simp: Let_def)
      ultimately show ?thesis using foa_sub by blast
    next
      case nonempty: False
      then have "c = foa - {[]}"
        using False after foa c by (auto simp: Let_def)
      then show ?thesis using foa_sub by blast
    qed
  qed
  then show ?case
    using Cons.prems(1) rest by (intro Cons.IH [of "acc \<union> c"]) auto
qed

lemma follow_sub: "follow g nt = Some y \<Longrightarrow> y \<subseteq> insert [] (terminals g)"
proof (induction g nt y rule: follow.raw_induct [rotated, consumes 1])
  case (1 f g nt y)
  then show ?case
    using first_sub [of g]
    by (intro follow_rules_sub [of "f g" g "first g" _ nt "rules g" y]) auto
qed

section \<open>Grammars on which the recursion does not return\<close>

lemma G3_first_single:
  "first_single g symb = Some y \<Longrightarrow> g = G3 \<Longrightarrow> symb \<noteq> ''S'' \<and> symb \<noteq> ''A''"
proof (induction g symb y rule: first_single.raw_induct [rotated, consumes 1])
  case (1 f g symb y)
  then show ?case
    using "1.IH" [of G3 "''A''"] "1.IH" [of G3 "''S''"]
    by (auto simp: G3_def has_terminal_def Let_def split: option.splits if_splits)
qed

lemma G3_follow:
  "follow g nt = Some y \<Longrightarrow> g = G3 \<Longrightarrow> nt \<noteq> ''S'' \<and> nt \<noteq> ''A''"
proof (induction g nt y rule: follow.raw_induct [rotated, consumes 1])
  case (1 f g nt y)
  then show ?case
    using "1.IH" [of G3 "''A''"] "1.IH" [of G3 "''S''"]
    by (auto simp: G3_def first_def Let_def split: option.splits if_splits)
qed

section \<open>Rules that add nothing\<close>

lemma follow_rules_not_in_body:
  "\<forall>r\<in>set rs. nt \<notin> set (snd r) \<Longrightarrow> follow_rules fi fl nt rs acc = Some acc"
  by (induction rs arbitrary: acc) (simp_all add: find_after_None [THEN iffD2])

lemma scan_rules_no_head:
  "\<forall>r\<in>set rs. fst r \<noteq> symb \<Longrightarrow> scan_rules fs symb rs acc = Some acc"
  by (induction rs arbitrary: acc) simp_all

lemma first_single_without_rules:
  assumes "\<not> has_terminal g n" and "n \<noteq> []" and "\<forall>r\<in>set (rules g). fst r \<noteq> n"
  shows "first_single g n = Some {}"
  using assms by (subst first_single.simps) (simp add: scan_rules_no_head)

lemma G7_first_single:
  "first_single g symb = Some y \<Longrightarrow> g = G7 \<Longrightarrow> symb \<noteq> ''S'' \<and> symb \<noteq> ''A''"
proof (induction g symb y rule: first_single.raw_induct [rotated, consumes 1])
  case (1 f g symb y)
  then show ?case
    using "1.IH" [of G7 "''A''"] "1.IH" [of G7 "''S''"]
    by (auto simp: G7_def has_terminal_def Let_def split: option.splits if_splits)
qed

lemma G7_follow:
  "follow g nt = Some y \<Longrightarrow> g = G7 \<Longrightarrow> nt \<noteq> ''S'' \<and> nt \<noteq> ''A'' \<and> nt \<noteq> ''N''"
proof (induction g nt y rule: follow.raw_induct [rotated, consumes 1])
  case (1 f g nt y)
  then show ?case
    using "1.IH" [of G7 "''A''"] "1.IH" [of G7 "''S''"]
    by (auto simp: G7_def first_def Let_def split: option.splits if_splits)
qed

section \<open>Ranked calls return\<close>

lemma scan_body_ranked:
  assumes "\<And>b. b \<in> D \<Longrightarrow> rk b < rk h \<Longrightarrow> \<exists>z. fs b = Some z \<and> first_single g b = Some z"
  shows "body_ranked g D rk h bs \<Longrightarrow> \<exists>y. scan_body fs h bs acc = Some y"
proof (induction bs arbitrary: acc)
  case Nil
  show ?case by simp
next
  case (Cons b bs)
  show ?case
  proof (cases "b = h")
    case True
    then show ?thesis using Cons by simp
  next
    case False
    then have inD: "b \<in> D" and lt: "rk b < rk h"
      and rest: "has_empty_string (first_single g b) \<Longrightarrow> body_ranked g D rk h bs"
      using Cons.prems by (auto split: if_splits)
    obtain z where z: "fs b = Some z" "first_single g b = Some z"
      using assms [OF inD lt] by blast
    show ?thesis
    proof (cases "[] \<in> z")
      case True
      then have "body_ranked g D rk h bs"
        using rest z(2) by (simp add: has_empty_string_def)
      then show ?thesis
        using False z(1) True Cons.IH [of "acc \<union> (z - {[]})"] by (simp add: Let_def)
    next
      case nonempty: False
      then show ?thesis using False z(1) by (simp add: Let_def)
    qed
  qed
qed

lemma scan_rules_ranked:
  assumes "\<And>b. b \<in> D \<Longrightarrow> rk b < rk h \<Longrightarrow> \<exists>z. fs b = Some z \<and> first_single g b = Some z"
  shows "\<forall>r\<in>set rs. fst r = h \<longrightarrow> body_ranked g D rk h (snd r) \<Longrightarrow>
    \<exists>y. scan_rules fs h rs acc = Some y"
proof (induction rs arbitrary: acc)
  case Nil
  show ?case by simp
next
  case (Cons r rs)
  show ?case
  proof (cases "fst r = h")
    case True
    then have "body_ranked g D rk h (snd r)" using Cons.prems by simp
    then obtain c where "scan_body fs h (snd r) acc = Some c"
      using scan_body_ranked [of D rk h fs g "snd r" acc] assms by blast
    then show ?thesis using True Cons.IH [of c] Cons.prems by simp
  next
    case False
    then show ?thesis using Cons.IH [of acc] Cons.prems by simp
  qed
qed

lemma first_single_ranked:
  assumes "first_ranked g D rk"
  shows "symb \<in> D \<Longrightarrow> \<exists>y. first_single_d (Suc (rk symb)) g symb = Some y"
proof (induction "rk symb" arbitrary: symb rule: less_induct)
  case less
  show ?case
  proof (cases "symb = [] \<or> has_terminal g symb")
    case True
    then show ?thesis by simp
  next
    case False
    have calls: "\<exists>z. first_single_d (rk symb) g b = Some z \<and> first_single g b = Some z"
      if inD: "b \<in> D" and lt: "rk b < rk symb" for b
    proof -
      obtain z where z: "first_single_d (Suc (rk b)) g b = Some z"
        using less.hyps [OF lt inD] by blast
      moreover have "Suc (rk b) \<le> rk symb" using lt by simp
      ultimately have "first_single_d (rk symb) g b = Some z"
        by (rule first_single_d_mono)
      then show ?thesis using first_single_d_sound [OF z] by blast
    qed
    have "\<forall>r\<in>set (rules g). fst r = symb \<longrightarrow> body_ranked g D rk symb (snd r)"
      using assms False less.prems by (auto simp: first_ranked_def)
    then have "\<exists>y. scan_rules (first_single_d (rk symb) g) symb (rules g) {} = Some y"
      using calls by (intro scan_rules_ranked [of D rk symb _ g]) auto
    then show ?thesis using False by simp
  qed
qed

lemma scan_seq_ranked:
  assumes "\<And>b. b \<in> D \<Longrightarrow> \<exists>z. fs b = Some z \<and> first_single g b = Some z"
  shows "seq_ranked g D bs \<Longrightarrow> \<exists>y. scan_seq fs bs acc = Some y"
proof (induction bs arbitrary: acc)
  case Nil
  show ?case by simp
next
  case (Cons b bs)
  then have inD: "b \<in> D"
    and rest: "has_empty_string (first_single g b) \<Longrightarrow> seq_ranked g D bs"
    by (auto split: if_splits)
  obtain z where z: "fs b = Some z" "first_single g b = Some z"
    using assms [OF inD] by blast
  show ?case
  proof (cases "[] \<in> z")
    case True
    then have "seq_ranked g D bs"
      using rest z(2) by (simp add: has_empty_string_def)
    then show ?thesis
      using z(1) True Cons.IH [of "acc \<union> (z - {[]})"] by (simp add: Let_def)
  next
    case False
    then show ?thesis using z(1) by (simp add: Let_def)
  qed
qed

lemma first_ranked_returns:
  assumes "first_ranked g D rk" and "seq_ranked g D seq" and "\<forall>s\<in>D. rk s < d"
  shows "\<exists>y. first_d (Suc d) g seq = Some y"
proof -
  have "\<exists>z. first_single_d d g b = Some z \<and> first_single g b = Some z" if inD: "b \<in> D" for b
  proof -
    obtain z where z: "first_single_d (Suc (rk b)) g b = Some z"
      using first_single_ranked [OF assms(1) inD] by blast
    moreover have "Suc (rk b) \<le> d"
      using assms(3) inD by auto
    ultimately have "first_single_d d g b = Some z"
      by (rule first_single_d_mono)
    then show ?thesis using first_single_d_sound [OF z] by blast
  qed
  then have "\<exists>y. scan_seq (first_single_d d g) seq {} = Some y"
    using assms(2) by (intro scan_seq_ranked [of D _ g]) auto
  then show ?thesis by simp
qed

lemma follow_rules_one:
  "follow_rules fi fl nt [r] {} \<noteq> None \<longleftrightarrow> fst r = nt \<or> follow_calls_return fi fl nt r"
  by (auto simp: follow_calls_return_def Let_def split: option.splits if_splits)

lemma follow_rules_returns:
  "(\<exists>y. follow_rules fi fl nt rs acc = Some y) \<longleftrightarrow>
     (\<forall>r\<in>set rs. fst r = nt \<or> follow_calls_return fi fl nt r)"
proof -
  have "(\<exists>y. follow_rules fi fl nt rs acc = Some y) \<longleftrightarrow>
      (\<forall>r\<in>set rs. follow_rules fi fl nt [r] {} \<noteq> None)"
  proof (cases "None \<in> (\<lambda>r. follow_rules fi fl nt [r] {}) ` set rs")
    case True
    then have "follow_rules fi fl nt rs acc = None"
      by (subst follow_rules_set) (simp del: follow_rules.simps)
    moreover have "\<exists>r\<in>set rs. follow_rules fi fl nt [r] {} = None"
      using True by (metis (no_types, lifting) imageE)
    ultimately show ?thesis by simp
  next
    case False
    then have "\<exists>y. follow_rules fi fl nt rs acc = Some y"
      by (subst follow_rules_set) (simp del: follow_rules.simps)
    moreover have "\<forall>r\<in>set rs. follow_rules fi fl nt [r] {} \<noteq> None"
      using False by (metis (no_types, lifting) image_eqI)
    ultimately show ?thesis by simp
  qed
  then show ?thesis by (simp only: follow_rules_one)
qed

lemma follow_ranked_returns:
  assumes "follow_ranked d g D rk"
  shows "nt \<in> D \<Longrightarrow> \<exists>y. follow_d (Suc (rk nt + d)) g nt = Some y"
proof (induction "rk nt" arbitrary: nt rule: less_induct)
  case less
  let ?n = "rk nt + d"
  have "fst r = nt \<or> follow_calls_return (first_d ?n g) (follow_d ?n g) nt r"
    if r: "r \<in> set (rules g)" for r
  proof (cases "fst r = nt \<or> find_after nt (snd r) = None")
    case True
    then show ?thesis by (auto simp: follow_calls_return_def)
  next
    case False
    then obtain after where after: "find_after nt (snd r) = Some after" by auto
    then have "nt \<in> set (snd r)"
      using find_after_None [of nt "snd r"] by auto
    then have "nt \<notin> D \<or> nt = fst r \<or>
        (case find_after nt (snd r) of
           None \<Rightarrow> True
         | Some after \<Rightarrow>
             (case first_d d g after of
                None \<Rightarrow> False
              | Some first_of_after \<Rightarrow>
                  if after = [] \<or> [] \<in> first_of_after
                  then fst r \<in> D \<and> rk (fst r) < rk nt else True))"
      using assms r unfolding follow_ranked_def by blast
    then have "case first_d d g after of
        None \<Rightarrow> False
      | Some first_of_after \<Rightarrow>
          if after = [] \<or> [] \<in> first_of_after
          then fst r \<in> D \<and> rk (fst r) < rk nt else True"
      using False after less.prems by auto
    then obtain foa where foa: "first_d d g after = Some foa"
      and inD: "after = [] \<or> [] \<in> foa \<Longrightarrow> fst r \<in> D"
      and lt: "after = [] \<or> [] \<in> foa \<Longrightarrow> rk (fst r) < rk nt"
      by (cases "first_d d g after") (auto split: if_splits)
    have first_n: "first_d ?n g after = Some foa"
      using foa by (rule first_d_mono) simp
    have "follow_d ?n g (fst r) \<noteq> None" if nullable: "after = [] \<or> [] \<in> foa"
    proof -
      obtain z where "follow_d (Suc (rk (fst r) + d)) g (fst r) = Some z"
        using less.hyps [OF lt [OF nullable] inD [OF nullable]] by blast
      moreover have "Suc (rk (fst r) + d) \<le> ?n"
        using lt [OF nullable] by simp
      ultimately have "follow_d ?n g (fst r) = Some z"
        by (rule follow_d_mono)
      then show ?thesis by simp
    qed
    then show ?thesis
      using after first_n by (auto simp: follow_calls_return_def)
  qed
  then have "\<exists>y. follow_rules (first_d ?n g) (follow_d ?n g) nt (rules g)
      (if nt = start g then {[]} else {}) = Some y"
    by (simp only: follow_rules_returns) blast
  then show ?case by simp
qed

section \<open>Every call that returns does so within some depth\<close>

lemma scan_body_depth:
  assumes mono: "\<And>d d' b z. D (d::nat) b = Some z \<Longrightarrow> d \<le> d' \<Longrightarrow> D d' b = Some z"
    and calls: "\<And>b z. f b = Some z \<Longrightarrow> \<exists>d. D d b = Some z"
  shows "scan_body f h bs acc = Some y \<Longrightarrow> \<exists>d. scan_body (D d) h bs acc = Some y"
proof (induction bs arbitrary: acc)
  case Nil
  then show ?case by simp
next
  case (Cons b bs)
  show ?case
  proof (cases "b = h")
    case True
    then show ?thesis using Cons by simp
  next
    case False
    then obtain sub where sub: "f b = Some sub"
      using Cons.prems by (auto split: option.splits)
    then obtain d1 where d1: "D d1 b = Some sub"
      using calls by blast
    show ?thesis
    proof (cases "[] \<in> sub")
      case True
      then have "scan_body f h bs (acc \<union> (sub - {[]})) = Some y"
        using Cons.prems False sub by (simp add: Let_def)
      then obtain d2 where d2: "scan_body (D d2) h bs (acc \<union> (sub - {[]})) = Some y"
        using Cons.IH by blast
      have "D (max d1 d2) b = Some sub"
        using d1 by (rule mono) simp
      moreover have "scan_body (D (max d1 d2)) h bs (acc \<union> (sub - {[]})) = Some y"
        using d2
      proof (rule scan_body_le [rotated])
        fix c z
        assume "D d2 c = Some z"
        then show "D (max d1 d2) c = Some z" by (rule mono) simp
      qed
      ultimately have "scan_body (D (max d1 d2)) h (b # bs) acc = Some y"
        using False True by (simp add: Let_def)
      then show ?thesis ..
    next
      case nonempty: False
      then have "scan_body (D d1) h (b # bs) acc = Some y"
        using Cons.prems False sub d1 by (simp add: Let_def)
      then show ?thesis ..
    qed
  qed
qed

lemma scan_rules_depth:
  assumes mono: "\<And>d d' b z. D (d::nat) b = Some z \<Longrightarrow> d \<le> d' \<Longrightarrow> D d' b = Some z"
    and calls: "\<And>b z. f b = Some z \<Longrightarrow> \<exists>d. D d b = Some z"
  shows "scan_rules f h rs acc = Some y \<Longrightarrow> \<exists>d. scan_rules (D d) h rs acc = Some y"
proof (induction rs arbitrary: acc)
  case Nil
  then show ?case by simp
next
  case (Cons r rs)
  show ?case
  proof (cases "fst r = h")
    case True
    then obtain c where c: "scan_body f h (snd r) acc = Some c"
      and rest: "scan_rules f h rs c = Some y"
      using Cons.prems by (auto split: option.splits)
    obtain d1 where d1: "scan_body (D d1) h (snd r) acc = Some c"
      using scan_body_depth [of D f h "snd r" acc c] mono calls c by blast
    obtain d2 where d2: "scan_rules (D d2) h rs c = Some y"
      using Cons.IH [OF rest] by blast
    have "scan_body (D (max d1 d2)) h (snd r) acc = Some c"
      using d1
    proof (rule scan_body_le [rotated])
      fix b z
      assume "D d1 b = Some z"
      then show "D (max d1 d2) b = Some z" by (rule mono) simp
    qed
    moreover have "scan_rules (D (max d1 d2)) h rs c = Some y"
      using d2
    proof (rule scan_rules_le [rotated])
      fix b z
      assume "D d2 b = Some z"
      then show "D (max d1 d2) b = Some z" by (rule mono) simp
    qed
    ultimately have "scan_rules (D (max d1 d2)) h (r # rs) acc = Some y"
      using True by simp
    then show ?thesis ..
  next
    case False
    then show ?thesis using Cons.prems Cons.IH [of acc] by simp
  qed
qed

lemma scan_seq_depth:
  assumes mono: "\<And>d d' b z. D (d::nat) b = Some z \<Longrightarrow> d \<le> d' \<Longrightarrow> D d' b = Some z"
    and calls: "\<And>b z. f b = Some z \<Longrightarrow> \<exists>d. D d b = Some z"
  shows "scan_seq f bs acc = Some y \<Longrightarrow> \<exists>d. scan_seq (D d) bs acc = Some y"
proof (induction bs arbitrary: acc)
  case Nil
  then show ?case by simp
next
  case (Cons b bs)
  then obtain sub where sub: "f b = Some sub"
    by (auto split: option.splits)
  then obtain d1 where d1: "D d1 b = Some sub"
    using calls by blast
  show ?case
  proof (cases "[] \<in> sub")
    case True
    then have "scan_seq f bs (acc \<union> (sub - {[]})) = Some y"
      using Cons.prems sub by (simp add: Let_def)
    then obtain d2 where d2: "scan_seq (D d2) bs (acc \<union> (sub - {[]})) = Some y"
      using Cons.IH by blast
    have "D (max d1 d2) b = Some sub"
      using d1 by (rule mono) simp
    moreover have "scan_seq (D (max d1 d2)) bs (acc \<union> (sub - {[]})) = Some y"
      using d2
    proof (rule scan_seq_le [rotated])
      fix c z
      assume "D d2 c = Some z"
      then show "D (max d1 d2) c = Some z" by (rule mono) simp
    qed
    ultimately have "scan_seq (D (max d1 d2)) (b # bs) acc = Some y"
      using True by (simp add: Let_def)
    then show ?thesis ..
  next
    case False
    then have "scan_seq (D d1) (b # bs) acc = Some y"
      using Cons.prems sub d1 by (simp add: Let_def)
    then show ?thesis ..
  qed
qed

lemma first_single_complete:
  "first_single g symb = Some y \<Longrightarrow> \<exists>d. first_single_d d g symb = Some y"
proof (induction g symb y rule: first_single.raw_induct [rotated, consumes 1])
  case (1 f g symb y)
  show ?case
  proof (cases "symb = [] \<or> has_terminal g symb")
    case True
    then have "first_single_d (Suc 0) g symb = Some y"
      using "1.hyps" by simp
    then show ?thesis ..
  next
    case False
    then have "scan_rules (f g) symb (rules g) {} = Some y"
      using "1.hyps" by simp
    then obtain d where "scan_rules (\<lambda>b. first_single_d d g b) symb (rules g) {} = Some y"
      using scan_rules_depth [of "\<lambda>d. first_single_d d g" "f g" symb "rules g" "{}" y]
        first_single_d_mono [of _ g] "1.IH" [of g]
      by blast
    then have "first_single_d (Suc d) g symb = Some y"
      using False by simp
    then show ?thesis ..
  qed
qed

lemma first_complete:
  assumes "first g seq = Some y"
  shows "\<exists>d. first_d d g seq = Some y"
proof (cases "seq = []")
  case True
  then have "first_d (Suc 0) g seq = Some y"
    using assms by (simp add: first_def)
  then show ?thesis ..
next
  case False
  then have "scan_seq (first_single g) seq {} = Some y"
    using assms by (simp add: first_def)
  then obtain d where "scan_seq (\<lambda>b. first_single_d d g b) seq {} = Some y"
    using scan_seq_depth [of "\<lambda>d. first_single_d d g" "first_single g" seq "{}" y]
      first_single_d_mono [of _ g] first_single_complete [of g]
    by blast
  then have "first_d (Suc d) g seq = Some y"
    using False by simp
  then show ?thesis ..
qed

lemma follow_rules_depth:
  assumes monoF: "\<And>d d' b z. FL (d::nat) b = Some z \<Longrightarrow> d \<le> d' \<Longrightarrow> FL d' b = Some z"
    and monoI: "\<And>d d' s z. FI (d::nat) s = Some z \<Longrightarrow> d \<le> d' \<Longrightarrow> FI d' s = Some z"
    and callsF: "\<And>b z. fl b = Some z \<Longrightarrow> \<exists>d. FL d b = Some z"
    and callsI: "\<And>s z. fi s = Some z \<Longrightarrow> \<exists>d. FI d s = Some z"
  shows "follow_rules fi fl nt rs acc = Some y \<Longrightarrow>
    \<exists>d. follow_rules (FI d) (FL d) nt rs acc = Some y"
proof (induction rs arbitrary: acc)
  case Nil
  then show ?case by simp
next
  case (Cons r rs)
  obtain c where c: "follow_rules fi fl nt [r] {} = Some c"
    and rest: "follow_rules fi fl nt rs (acc \<union> c) = Some y"
    using Cons.prems
    by (subst (asm) follow_rules_Cons) (auto simp del: follow_rules.simps split: option.splits)
  have "\<exists>d1. follow_rules (FI d1) (FL d1) nt [r] {} = Some c"
  proof (cases "fst r = nt \<or> find_after nt (snd r) = None")
    case True
    then have "follow_rules (FI 0) (FL 0) nt [r] {} = Some c"
      using c by (auto split: if_splits)
    then show ?thesis ..
  next
    case False
    then obtain after where after: "find_after nt (snd r) = Some after" by auto
    then obtain foa where foa: "fi after = Some foa"
      using False c by (auto split: option.splits)
    then obtain da where da: "FI da after = Some foa"
      using callsI by blast
    show ?thesis
    proof (cases "after = [] \<or> [] \<in> foa")
      case True
      then obtain sub where sub: "fl (fst r) = Some sub"
        using False after foa c by (auto simp: Let_def split: option.splits)
      then obtain db where db: "FL db (fst r) = Some sub"
        using callsF by blast
      have "FI (max da db) after = Some foa"
        using da by (rule monoI) simp
      moreover have "FL (max da db) (fst r) = Some sub"
        using db by (rule monoF) simp
      ultimately have "follow_rules (FI (max da db)) (FL (max da db)) nt [r] {} = Some c"
        using False True after foa sub c by (auto simp: Let_def)
      then show ?thesis ..
    next
      case nonempty: False
      then have "follow_rules (FI da) (FL da) nt [r] {} = Some c"
        using False after foa da c by (auto simp: Let_def)
      then show ?thesis ..
    qed
  qed
  then obtain d1 where d1: "follow_rules (FI d1) (FL d1) nt [r] {} = Some c" ..
  obtain d2 where d2: "follow_rules (FI d2) (FL d2) nt rs (acc \<union> c) = Some y"
    using Cons.IH [OF rest] by blast
  have "follow_rules (FI (max d1 d2)) (FL (max d1 d2)) nt [r] {} = Some c"
    using d1
  proof (rule follow_rules_le2 [rotated 2])
    fix b z
    assume "FL d1 b = Some z"
    then show "FL (max d1 d2) b = Some z" by (rule monoF) simp
  next
    fix s z
    assume "FI d1 s = Some z"
    then show "FI (max d1 d2) s = Some z" by (rule monoI) simp
  qed
  moreover have "follow_rules (FI (max d1 d2)) (FL (max d1 d2)) nt rs (acc \<union> c) = Some y"
    using d2
  proof (rule follow_rules_le2 [rotated 2])
    fix b z
    assume "FL d2 b = Some z"
    then show "FL (max d1 d2) b = Some z" by (rule monoF) simp
  next
    fix s z
    assume "FI d2 s = Some z"
    then show "FI (max d1 d2) s = Some z" by (rule monoI) simp
  qed
  ultimately have "follow_rules (FI (max d1 d2)) (FL (max d1 d2)) nt (r # rs) acc = Some y"
    by (subst follow_rules_Cons) (simp del: follow_rules.simps)
  then show ?case ..
qed

lemma follow_complete:
  "follow g nt = Some y \<Longrightarrow> \<exists>d. follow_d d g nt = Some y"
proof (induction g nt y rule: follow.raw_induct [rotated, consumes 1])
  case (1 f g nt y)
  let ?init = "if nt = start g then {[]} else {}"
  obtain d where
    "follow_rules (\<lambda>s. first_d d g s) (\<lambda>b. follow_d d g b) nt (rules g) ?init = Some y"
    using follow_rules_depth [of "\<lambda>d. follow_d d g" "\<lambda>d. first_d d g" "f g" "first g"
        nt "rules g" ?init y]
      follow_d_mono [of _ g] first_d_mono [of _ g] first_complete [of g] "1.IH" [of g] "1.hyps"
    by blast
  then have "follow_d (Suc d) g nt = Some y" by simp
  then show ?case ..
qed

text \<open>Calls that return are ranked by the depth they need.\<close>

lemma scan_body_calls:
  assumes "\<And>b z. fs b = Some z \<Longrightarrow> b \<in> D \<and> rk b < rk h \<and> first_single g b = Some z"
  shows "scan_body fs h bs acc = Some y \<Longrightarrow> body_ranked g D rk h bs"
proof (induction bs arbitrary: acc)
  case Nil
  show ?case by simp
next
  case (Cons b bs)
  show ?case
  proof (cases "b = h")
    case True
    then show ?thesis using Cons by simp
  next
    case False
    then obtain sub where sub: "fs b = Some sub"
      using Cons.prems by (auto split: option.splits)
    then have inD: "b \<in> D" and lt: "rk b < rk h" and res: "first_single g b = Some sub"
      using assms by blast+
    show ?thesis
    proof (cases "[] \<in> sub")
      case True
      then have "scan_body fs h bs (acc \<union> (sub - {[]})) = Some y"
        using Cons.prems False sub by (simp add: Let_def)
      then have "body_ranked g D rk h bs" by (rule Cons.IH)
      then show ?thesis using False inD lt by simp
    next
      case nonempty: False
      then show ?thesis using False inD lt res by (simp add: has_empty_string_def)
    qed
  qed
qed

lemma scan_rules_each:
  "scan_rules fs h rs acc = Some y \<Longrightarrow> r \<in> set rs \<Longrightarrow> fst r = h \<Longrightarrow>
     \<exists>acc' y'. scan_body fs h (snd r) acc' = Some y'"
proof (induction rs arbitrary: acc)
  case Nil
  then show ?case by simp
next
  case (Cons a rs)
  show ?case
  proof (cases "fst a = h")
    case True
    then obtain c where c: "scan_body fs h (snd a) acc = Some c"
      and rest: "scan_rules fs h rs c = Some y"
      using Cons.prems(1) by (auto split: option.splits)
    show ?thesis
    proof (cases "r = a")
      case True
      then show ?thesis using c by blast
    next
      case False
      then have "r \<in> set rs" using Cons.prems(2) by simp
      then show ?thesis using Cons.IH [OF rest] Cons.prems(3) by blast
    qed
  next
    case False
    then have "scan_rules fs h rs acc = Some y" and "r \<in> set rs"
      using Cons.prems by auto
    then show ?thesis using Cons.IH Cons.prems(3) by blast
  qed
qed

lemma scan_seq_calls:
  assumes "\<And>b z. fs b = Some z \<Longrightarrow> b \<in> D \<and> first_single g b = Some z"
  shows "scan_seq fs bs acc = Some y \<Longrightarrow> seq_ranked g D bs"
proof (induction bs arbitrary: acc)
  case Nil
  show ?case by simp
next
  case (Cons b bs)
  then obtain sub where sub: "fs b = Some sub"
    by (auto split: option.splits)
  then have inD: "b \<in> D" and res: "first_single g b = Some sub"
    using assms by blast+
  show ?case
  proof (cases "[] \<in> sub")
    case True
    then have "scan_seq fs bs (acc \<union> (sub - {[]})) = Some y"
      using Cons.prems sub by (simp add: Let_def)
    then have "seq_ranked g D bs" by (rule Cons.IH)
    then show ?thesis using inD by simp
  next
    case False
    then show ?thesis using inD res by (simp add: has_empty_string_def)
  qed
qed

lemma first_returns_ranked:
  assumes "first g seq = Some y"
  shows "\<exists>D rk d. first_ranked g D rk \<and> seq_ranked g D seq \<and> (\<forall>s\<in>D. rk s < d)"
proof -
  define D where "D = {s. first_single g s \<noteq> None}"
  define rk where "rk s = (LEAST d. first_single_d (Suc d) g s \<noteq> None)" for s
  define M where "M = sum_list (map (\<lambda>r. rk (fst r)) (rules g))"
  have ex: "\<exists>d. first_single_d (Suc d) g s \<noteq> None" if "s \<in> D" for s
  proof -
    obtain z where "first_single g s = Some z"
      using \<open>s \<in> D\<close> unfolding D_def by auto
    then obtain d where d: "first_single_d d g s = Some z"
      using first_single_complete by blast
    then obtain e where e: "d = Suc e" by (cases d) auto
    have "first_single_d (Suc e) g s = Some z"
      using d unfolding e .
    then have "first_single_d (Suc e) g s \<noteq> None"
      by (simp del: first_single_d.simps)
    then show ?thesis ..
  qed
  have ret: "first_single_d (Suc (rk s)) g s \<noteq> None" if "s \<in> D" for s
    unfolding rk_def using ex [OF that] by (rule LeastI_ex)
  have least: "rk s \<le> d" if "first_single_d (Suc d) g s \<noteq> None" for s d
    unfolding rk_def using that by (rule Least_le)
  have ranked: "first_ranked g D rk"
    unfolding first_ranked_def
  proof (intro ballI)
    fix r
    assume r: "r \<in> set (rules g)"
    let ?h = "fst r"
    show "?h \<notin> D \<or> ?h = [] \<or> has_terminal g ?h \<or> body_ranked g D rk ?h (snd r)"
    proof (cases "?h \<in> D \<and> \<not> (?h = [] \<or> has_terminal g ?h)")
      case False
      then show ?thesis by blast
    next
      case True
      then obtain z where "first_single_d (Suc (rk ?h)) g ?h = Some z"
        using ret [of ?h] by auto
      then have "scan_rules (first_single_d (rk ?h) g) ?h (rules g) {} = Some z"
        using True by simp
      then obtain acc' y' where
        body: "scan_body (first_single_d (rk ?h) g) ?h (snd r) acc' = Some y'"
        using scan_rules_each r by blast
      have "b \<in> D \<and> rk b < rk ?h \<and> first_single g b = Some z"
        if call: "first_single_d (rk ?h) g b = Some z" for b z
      proof -
        obtain n where n: "rk ?h = Suc n"
          using call by (cases "rk ?h") auto
        then have "rk b \<le> n"
          using call by (intro least) simp
        moreover have res: "first_single g b = Some z"
          using call by (rule first_single_d_sound)
        moreover have "b \<in> D"
          using res unfolding D_def by simp
        ultimately show ?thesis using n by simp
      qed
      then have "body_ranked g D rk ?h (snd r)"
        using body by (intro scan_body_calls [of "first_single_d (rk ?h) g" D rk ?h g]) auto
      then show ?thesis by blast
    qed
  qed
  have seqr: "seq_ranked g D seq"
  proof (cases "seq = []")
    case True
    then show ?thesis by simp
  next
    case False
    then have "scan_seq (first_single g) seq {} = Some y"
      using assms by (simp add: first_def)
    then show ?thesis
      by (intro scan_seq_calls [of "first_single g" D g seq "{}" y]) (auto simp: D_def)
  qed
  have bound: "\<forall>s\<in>D. rk s < Suc M"
  proof
    fix s
    assume "s \<in> D"
    show "rk s < Suc M"
    proof (cases "\<exists>r\<in>set (rules g). fst r = s")
      case True
      then have "rk s \<in> set (map (\<lambda>r. rk (fst r)) (rules g))" by auto
      then have "rk s \<le> M"
        unfolding M_def by (simp add: member_le_sum_list)
      then show ?thesis by simp
    next
      case False
      then have "first_single_d (Suc 0) g s \<noteq> None"
        by (simp add: scan_rules_no_head)
      then have "rk s \<le> 0" by (rule least)
      then show ?thesis by simp
    qed
  qed
  show ?thesis using ranked seqr bound by blast
qed

lemma follow_returns_ranked:
  assumes "follow g nt = Some y"
  shows "\<exists>d D rk. follow_ranked d g D rk \<and> nt \<in> D"
proof -
  define D where "D = {s. follow g s \<noteq> None}"
  define rk where "rk s = (LEAST d. follow_d (Suc d) g s \<noteq> None)" for s
  define M where "M = sum_list (map rk (concat (map snd (rules g))))"
  have ex: "\<exists>d. follow_d (Suc d) g s \<noteq> None" if "s \<in> D" for s
  proof -
    obtain z where "follow g s = Some z"
      using \<open>s \<in> D\<close> unfolding D_def by auto
    then obtain d where d: "follow_d d g s = Some z"
      using follow_complete by blast
    then obtain e where e: "d = Suc e" by (cases d) auto
    have "follow_d (Suc e) g s = Some z"
      using d unfolding e .
    then have "follow_d (Suc e) g s \<noteq> None"
      by (simp del: follow_d.simps)
    then show ?thesis ..
  qed
  have ret: "follow_d (Suc (rk s)) g s \<noteq> None" if "s \<in> D" for s
    unfolding rk_def using ex [OF that] by (rule LeastI_ex)
  have least: "rk s \<le> d" if "follow_d (Suc d) g s \<noteq> None" for s d
    unfolding rk_def using that by (rule Least_le)
  have edge: "case find_after s (snd r) of
        None \<Rightarrow> True
      | Some after \<Rightarrow>
          (case first_d M g after of
             None \<Rightarrow> False
           | Some first_of_after \<Rightarrow>
               if after = [] \<or> [] \<in> first_of_after
               then fst r \<in> D \<and> rk (fst r) < rk s else True)"
    if r: "r \<in> set (rules g)" and s: "s \<in> set (snd r)" and inD: "s \<in> D"
      and other: "s \<noteq> fst r" for r s
  proof -
    obtain after where after: "find_after s (snd r) = Some after"
      using s find_after_None [of s "snd r"] by auto
    obtain z where "follow_d (Suc (rk s)) g s = Some z"
      using ret [OF inD] by auto
    then have "\<exists>y. follow_rules (first_d (rk s) g) (follow_d (rk s) g) s (rules g)
        (if s = start g then {[]} else {}) = Some y"
      by simp
    then have "follow_calls_return (first_d (rk s) g) (follow_d (rk s) g) s r"
      using r other by (simp only: follow_rules_returns) auto
    then obtain foa where foa: "first_d (rk s) g after = Some foa"
      and call: "after = [] \<or> [] \<in> foa \<Longrightarrow> follow_d (rk s) g (fst r) \<noteq> None"
      using after
      by (cases "first_d (rk s) g after")
         (auto simp: follow_calls_return_def split: if_splits)
    have "s \<in> set (concat (map snd (rules g)))"
      using r s by auto
    then have "rk s \<le> M"
      unfolding M_def by (simp add: member_le_sum_list)
    with foa have first_M: "first_d M g after = Some foa"
      by (rule first_d_mono)
    have "fst r \<in> D \<and> rk (fst r) < rk s" if nullable: "after = [] \<or> [] \<in> foa"
    proof -
      have ne: "follow_d (rk s) g (fst r) \<noteq> None"
        using call [OF nullable] .
      then obtain n where n: "rk s = Suc n"
        by (cases "rk s") auto
      then have "rk (fst r) \<le> n"
        using ne by (intro least) simp
      moreover obtain z where "follow_d (rk s) g (fst r) = Some z"
        using ne by auto
      then have "follow g (fst r) = Some z" by (rule follow_d_sound)
      then have "fst r \<in> D" unfolding D_def by simp
      ultimately show ?thesis using n by simp
    qed
    then show ?thesis
      using after first_M by auto
  qed
  have "follow_ranked M g D rk"
    unfolding follow_ranked_def
  proof (intro ballI)
    fix r s
    assume "r \<in> set (rules g)" and "s \<in> set (snd r)"
    then show "s \<notin> D \<or> s = fst r \<or>
        (case find_after s (snd r) of
           None \<Rightarrow> True
         | Some after \<Rightarrow>
             (case first_d M g after of
                None \<Rightarrow> False
              | Some first_of_after \<Rightarrow>
                  if after = [] \<or> [] \<in> first_of_after
                  then fst r \<in> D \<and> rk (fst r) < rk s else True))"
      using edge [of r s] by blast
  qed
  moreover have "nt \<in> D"
    using assms unfolding D_def by simp
  ultimately show ?thesis by blast
qed

section \<open>Members of the result of follow\<close>



section \<open>The scan stops at a symbol with an empty FIRST set\<close>

lemma scan_seq_stops:
  assumes "fs n = Some {}"
  shows "[] \<notin> acc \<Longrightarrow>
    scan_seq fs (pre @ n # post) acc = map_option (\<lambda>y. y - {[]}) (scan_seq fs pre acc)"
proof (induction pre arbitrary: acc)
  case Nil
  then show ?case using assms by (simp add: Let_def)
next
  case (Cons b pre)
  show ?case
  proof (cases "fs b")
    case None
    then show ?thesis by simp
  next
    case (Some sub)
    have "[] \<notin> acc \<union> (sub - {[]})" using Cons.prems by simp
    then show ?thesis
      using Some Cons.prems Cons.IH [of "acc \<union> (sub - {[]})"]
      by (auto simp: Let_def)
  qed
qed

lemma scan_body_stops:
  assumes "fs n = Some {}" and "n \<noteq> h"
  shows "scan_body fs h (pre @ n # post) acc =
    map_option (\<lambda>y. y - ({[]} - acc)) (scan_body fs h pre acc)"
proof (induction pre arbitrary: acc)
  case Nil
  show ?case using assms by (auto simp: Let_def)
next
  case (Cons b pre)
  show ?case
  proof (cases "b = h")
    case True
    then show ?thesis using Cons.IH [of acc] by simp
  next
    case False
    show ?thesis
    proof (cases "fs b")
      case None
      then show ?thesis using False by simp
    next
      case (Some sub)
      have "{[]} - (acc \<union> (sub - {[]})) = {[]} - acc" by auto
      then show ?thesis
        using False Some Cons.IH [of "acc \<union> (sub - {[]})"]
        by (auto simp: Let_def)
    qed
  qed
qed

lemma first_single_d_without_rules:
  assumes "without_rules g n"
  shows "first_single_d (Suc d) g n = Some {}"
  using assms by (simp add: without_rules_def scan_rules_no_head)

section \<open>C1. Termination\<close>

text \<open>
  C1, as the claim states it, fails: on the grammar \<open>S = A\<close>, \<open>A = S\<close>, \<open>A = \<epsilon>\<close> neither
  \<open>first [S]\<close> nor \<open>follow S\<close> returns. \<open>first_single S\<close> calls \<open>first_single A\<close>, which calls
  \<open>first_single S\<close> again, and \<open>follow S\<close> calls \<open>follow A\<close>, which calls \<open>follow S\<close> again.
\<close>

theorem cycle_never_returns: "first G3 [''S''] = None \<and> follow G3 ''S'' = None"
proof -
  have "first_single G3 ''S'' = None"
    using G3_first_single [of G3 "''S''"] by (cases "first_single G3 ''S''") auto
  then have "first G3 [''S''] = None"
    by (simp add: first_def)
  moreover have "follow G3 ''S'' = None"
    using G3_follow [of G3 "''S''"] by (cases "follow G3 ''S''") auto
  ultimately show ?thesis ..
qed

text \<open>
  C1, amended. \<open>first\<close> returns a set on a sequence exactly when a set \<open>D\<close> of symbols can
  be ranked so that the calls \<^verbatim>\<open>first\<close> makes on the sequence go to symbols of \<open>D\<close> and every
  nested call \<^verbatim>\<open>first_single\<close> makes for a symbol of \<open>D\<close> goes to a symbol of \<open>D\<close> of strictly
  lower rank. With the ranks below \<open>d\<close> the recursion is at most one frame of \<^verbatim>\<open>first\<close> and
  \<open>d\<close> frames of \<^verbatim>\<open>first_single\<close> deep, and the call returns when the stack holds that many
  frames. \<open>follow\<close> returns a set on a symbol \<open>nt\<close> exactly when a set \<open>D\<close> of symbols with
  \<open>nt\<close> in it can be ranked so that, for the symbols of \<open>D\<close>, every call of \<^verbatim>\<open>first\<close> that
  \<^verbatim>\<open>follow\<close> makes returns within \<open>d\<close> frames and every nested call of \<^verbatim>\<open>follow\<close> goes to a
  head in \<open>D\<close> of strictly lower rank; it returns when the stack holds the rank of \<open>nt\<close> plus
  \<open>d + 1\<close> frames. Direct recursion (a head in its own body) needs no ranking: that call is
  never made.
\<close>

theorem ranked_calls_return:
  "(first_ranked g D rk \<and> seq_ranked g D seq \<and> (\<forall>s\<in>D. rk s < d) \<longrightarrow>
      (\<exists>y. first_d (Suc d) g seq = Some y \<and> first g seq = Some y)) \<and>
   (follow_ranked d g D' rk' \<and> nt \<in> D' \<longrightarrow>
      (\<exists>y. follow_d (Suc (rk' nt + d)) g nt = Some y \<and> follow g nt = Some y)) \<and>
   (first g seq \<noteq> None \<longrightarrow>
      (\<exists>D rk d. first_ranked g D rk \<and> seq_ranked g D seq \<and> (\<forall>s\<in>D. rk s < d))) \<and>
   (follow g nt \<noteq> None \<longrightarrow> (\<exists>d D' rk'. follow_ranked d g D' rk' \<and> nt \<in> D'))"
proof (intro conjI impI)
  assume "first_ranked g D rk \<and> seq_ranked g D seq \<and> (\<forall>s\<in>D. rk s < d)"
  then obtain y where y: "first_d (Suc d) g seq = Some y"
    using first_ranked_returns [of g D rk seq d] by blast
  then have "first g seq = Some y" by (rule first_d_sound)
  then show "\<exists>y. first_d (Suc d) g seq = Some y \<and> first g seq = Some y"
    using y by blast
next
  assume "follow_ranked d g D' rk' \<and> nt \<in> D'"
  then obtain y where y: "follow_d (Suc (rk' nt + d)) g nt = Some y"
    using follow_ranked_returns [of d g D' rk' nt] by blast
  then have "follow g nt = Some y" by (rule follow_d_sound)
  then show "\<exists>y. follow_d (Suc (rk' nt + d)) g nt = Some y \<and> follow g nt = Some y"
    using y by blast
next
  assume "first g seq \<noteq> None"
  then obtain y where "first g seq = Some y" by auto
  then show "\<exists>D rk d. first_ranked g D rk \<and> seq_ranked g D seq \<and> (\<forall>s\<in>D. rk s < d)"
    by (rule first_returns_ranked)
next
  assume "follow g nt \<noteq> None"
  then obtain y where "follow g nt = Some y" by auto
  then show "\<exists>d D' rk'. follow_ranked d g D' rk' \<and> nt \<in> D'"
    by (rule follow_returns_ranked)
qed

text \<open>
  The expression grammar, in which \<open>E\<close> reaches itself through \<open>T\<close> and \<open>F\<close> behind the
  terminal \<open>(\<close>: both rankings exist for all its symbols, \<open>first [E]\<close> returns with 5 frames
  and \<open>follow F\<close> with 10. The grammar \<open>A = a B\<close>, \<open>B = b A\<close>, in which \<open>follow A\<close> and \<open>follow B\<close>
  call each other: the symbol \<open>a\<close> alone is ranked, and \<open>follow a\<close> returns with 4 frames.
\<close>

theorem ranked_calls_return_witness:
  "first_ranked GE GE_symbols GE_first_rank \<and> seq_ranked GE GE_symbols [''E''] \<and>
   (\<exists>y. first_d 5 GE [''E''] = Some y \<and> first GE [''E''] = Some y) \<and>
   follow_ranked 5 GE GE_symbols GE_follow_rank \<and>
   (\<exists>y. follow_d 10 GE ''F'' = Some y \<and> follow GE ''F'' = Some y) \<and>
   follow_ranked 3 G9 {''a''} (\<lambda>s. 0) \<and>
   (\<exists>y. follow_d 4 G9 ''a'' = Some y \<and> follow G9 ''a'' = Some y) \<and>
   (\<exists>D rk d. first_ranked GE D rk \<and> seq_ranked GE D [''E''] \<and> (\<forall>s\<in>D. rk s < d)) \<and>
   (\<exists>d D rk. follow_ranked d G9 D rk \<and> ''a'' \<in> D)"
proof -
  have fr: "first_ranked GE GE_symbols GE_first_rank" by code_simp
  have sr: "seq_ranked GE GE_symbols [''E'']" by code_simp
  have low: "\<forall>s\<in>GE_symbols. GE_first_rank s < 4"
    by (simp add: GE_symbols_def GE_first_rank_def)
  have lr: "follow_ranked 5 GE GE_symbols GE_follow_rank" by code_simp
  have inF: "''F'' \<in> GE_symbols" by (simp add: GE_symbols_def)
  have lr9: "follow_ranked 3 G9 {''a''} (\<lambda>s. 0)" by code_simp
  have 1: "\<exists>y. first_d 5 GE [''E''] = Some y \<and> first GE [''E''] = Some y"
    using ranked_calls_return [of GE GE_symbols GE_first_rank "[''E'']" 4] fr sr low
    by simp
  have "GE_follow_rank ''F'' = 4" by (simp add: GE_follow_rank_def)
  then have 2: "\<exists>y. follow_d 10 GE ''F'' = Some y \<and> follow GE ''F'' = Some y"
    using ranked_calls_return [of GE _ _ _ 5 GE_symbols GE_follow_rank "''F''"] lr inF
    by (simp del: follow_d.simps)
  have 3: "\<exists>y. follow_d 4 G9 ''a'' = Some y \<and> follow G9 ''a'' = Some y"
    using ranked_calls_return [of G9 _ _ _ 3 "{''a''}" "\<lambda>s. 0" "''a''"] lr9
    by (simp del: follow_d.simps add: numeral_eq_Suc)
  have "first GE [''E''] \<noteq> None" using 1 by auto
  moreover have "first GE [''E''] \<noteq> None \<longrightarrow>
      (\<exists>D rk d. first_ranked GE D rk \<and> seq_ranked GE D [''E''] \<and> (\<forall>s\<in>D. rk s < d))"
    by (rule ranked_calls_return [THEN conjunct2, THEN conjunct2, THEN conjunct1])
  ultimately have 4:
    "\<exists>D rk d. first_ranked GE D rk \<and> seq_ranked GE D [''E''] \<and> (\<forall>s\<in>D. rk s < d)"
    by (rule rev_mp)
  have "follow G9 ''a'' \<noteq> None" using 3 by auto
  moreover have "follow G9 ''a'' \<noteq> None \<longrightarrow>
      (\<exists>d D rk. follow_ranked d G9 D rk \<and> ''a'' \<in> D)"
    by (rule ranked_calls_return [THEN conjunct2, THEN conjunct2, THEN conjunct2])
  ultimately have 5: "\<exists>d D rk. follow_ranked d G9 D rk \<and> ''a'' \<in> D"
    by (rule rev_mp)
  show ?thesis
    using fr sr lr lr9 1 2 3 4 5 by blast
qed

section \<open>C2. Rules headed by the queried symbol\<close>




section \<open>C3. Direct left recursion\<close>

text \<open>
  C3, as the claim states it, fails: for the grammar \<open>S = S a\<close>, \<open>S = b\<close> the result of
  \<open>first [S]\<close> is not \<open>{b}\<close>.
\<close>

theorem left_recursion_first_not_b: "first G2 [''S''] \<noteq> Some {''b''}"
  by code_simp

text \<open>
  C3, amended. For the grammar with terminals \<open>a\<close>, \<open>b\<close>, start \<open>S\<close> and rules \<open>S = S a\<close>,
  \<open>S = b\<close>, \<open>first [S] = {a, b}\<close>: the occurrence of \<open>S\<close> at the head of the body \<open>S a\<close> is
  skipped and the scan goes on with \<open>a\<close>. The result does not contain the empty symbol.
\<close>

theorem left_recursion_first: "first G2 [''S''] = Some {''a'', ''b''}"
  by code_simp

section \<open>C4. Occurrences of the queried symbol in one body\<close>

text \<open>
  C4, at a body with two occurrences. For the grammar \<open>S = A a A b\<close>, \<open>A = a\<close>, \<open>follow A\<close>
  returns \<open>{a}\<close>: only the first occurrence of \<open>A\<close> in the body is found, and \<open>b\<close>, behind
  the second occurrence, is missing from the result.
\<close>

theorem follow_second_occurrence: "follow G4 ''A'' = Some {''a''}"
  by code_simp

section \<open>C5. Scenario 1\<close>

text \<open>
  C5. For the grammar with terminals \<open>a\<close>, \<open>b\<close>, non-terminals \<open>S\<close>, \<open>A\<close>, start \<open>S\<close> and rules
  \<open>S = A b\<close>, \<open>A = a\<close>, \<open>A = \<epsilon>\<close>: \<open>first [S] = {a, b}\<close>, \<open>first [A] = {a, \<epsilon>}\<close>,
  \<open>follow A = {b}\<close> and \<open>follow S = {\<epsilon>}\<close>.
\<close>

theorem scenario_1:
  "first G1 [''S''] = Some {''a'', ''b''} \<and>
   first G1 [''A''] = Some {''a'', []} \<and>
   follow G1 ''A'' = Some {''b''} \<and>
   follow G1 ''S'' = Some {[]}"
  by code_simp

section \<open>C6. Order of the rules\<close>

text \<open>
  C6. The results of \<open>first\<close> and \<open>follow\<close> do not depend on the order in which the rules
  are visited: for every grammar and every permutation \<open>rs\<close> of its rules, \<open>first\<close> of every
  sequence and \<open>follow\<close> of every symbol are the same with the rules visited in the order
  \<open>rs\<close>. The equality is one of options: a call returns for one order exactly when it
  returns for the other.
\<close>

theorem rule_order_independent:
  assumes "mset rs = mset (rules g)"
  shows "first (g\<lparr>rules := rs\<rparr>) seq = first g seq \<and>
         follow (g\<lparr>rules := rs\<rparr>) nt = follow g nt"
proof -
  have "set rs = set (rules g)"
    using assms by (rule mset_eq_setD)
  then have "first (g\<lparr>rules := rs\<rparr>) seq = first g seq"
    by (intro first_rules_eq) simp_all
  moreover from \<open>set rs = set (rules g)\<close>
  have "follow (g\<lparr>rules := rs\<rparr>) nt = follow g nt"
    by (intro follow_rules_eq) simp_all
  ultimately show ?thesis ..
qed

text \<open>The rules of scenario 1, visited in reverse order.\<close>

theorem rule_order_independent_witness:
  "first (G1\<lparr>rules := rev (rules G1)\<rparr>) [''S''] = first G1 [''S''] \<and>
   follow (G1\<lparr>rules := rev (rules G1)\<rparr>) ''A'' = follow G1 ''A''"
  using rule_order_independent [of "rev (rules G1)" G1 "[''S'']" "''A''"] by simp

section \<open>C7. Symbols outside the grammar and non-terminals without rules\<close>

text \<open>
  C7, as the claim states it, fails: in the grammar \<open>A = N\<close>, \<open>A = S\<close>, \<open>S = A\<close> the declared
  non-terminal \<open>N\<close> has zero rules, and \<open>follow N\<close> never returns: it calls \<open>follow A\<close>,
  which calls \<open>follow S\<close>, which calls \<open>follow A\<close> again. Neither does \<open>first [S, N]\<close> return:
  \<^verbatim>\<open>first_single\<close> of \<open>S\<close> calls that of \<open>A\<close>, which calls that of \<open>S\<close> again.
\<close>

theorem ruleless_follow_never_returns:
  "without_rules G7 ''N'' \<and> follow G7 ''N'' = None \<and> first G7 [''S'', ''N''] = None"
proof (intro conjI)
  show "without_rules G7 ''N''"
    by (simp add: without_rules_def G7_def has_terminal_def has_non_terminal_def)
  show "follow G7 ''N'' = None"
    using G7_follow [of G7 "''N''"] by (cases "follow G7 ''N''") auto
  have "first_single G7 ''S'' = None"
    using G7_first_single [of G7 "''S''"] by (cases "first_single G7 ''S''") auto
  then show "first G7 [''S'', ''N''] = None"
    by (simp add: first_def)
qed

text \<open>
  C7, amended. For every grammar and every symbol that is not present in it, \<open>follow\<close> of
  that symbol returns the empty set, in one stack frame. For a declared non-terminal \<open>n\<close>
  with zero rules (not also a declared terminal, not the empty string):
  \<^verbatim>\<open>first_single\<close> of \<open>n\<close> returns the empty set in one frame, with no nested call;
  the scan of a rule body stops at \<open>n\<close>: it returns exactly when the scan of the part
  before \<open>n\<close> returns, with that result less the empty symbol the end of the body would add;
  \<open>first\<close> of a sequence that contains \<open>n\<close> returns exactly when \<open>first\<close> of the part before
  \<open>n\<close> returns, with that result less the empty symbol, and on a stack of two frames or more
  it needs no more frames;
  \<open>follow\<close> of \<open>n\<close> returns exactly when the calls it makes return, for every rule with \<open>n\<close>
  in its body: \<^verbatim>\<open>first\<close> of the rest of the body, and \<^verbatim>\<open>follow\<close> of the head when that rest is
  empty or its FIRST set has the empty symbol; it needs one frame more than these calls.
\<close>

theorem absent_and_ruleless:
  "(absent g s \<longrightarrow> follow g s = Some {} \<and> follow_d (Suc d) g s = Some {}) \<and>
   (without_rules g n \<longrightarrow>
      first_single g n = Some {} \<and> first_single_d (Suc d) g n = Some {} \<and>
      (n \<noteq> h \<longrightarrow>
         scan_body (first_single g) h (pre @ n # post) acc =
           map_option (\<lambda>y. y - ({[]} - acc)) (scan_body (first_single g) h pre acc)) \<and>
      first g (pre @ n # post) = map_option (\<lambda>y. y - {[]}) (first g pre) \<and>
      first_d (Suc (Suc d)) g (pre @ n # post) =
        map_option (\<lambda>y. y - {[]}) (first_d (Suc (Suc d)) g pre) \<and>
      ((\<exists>y. follow g n = Some y) \<longleftrightarrow>
         (\<forall>r\<in>set (rules g). follow_calls_return (first g) (follow g) n r)) \<and>
      ((\<exists>y. follow_d (Suc d) g n = Some y) \<longleftrightarrow>
         (\<forall>r\<in>set (rules g). follow_calls_return (first_d d g) (follow_d d g) n r)))"
proof (intro conjI impI)
  assume "absent g s"
  then have *: "s \<noteq> start g" "\<forall>r\<in>set (rules g). s \<notin> set (snd r)"
    by (auto simp: absent_def)
  then show "follow g s = Some {}"
    by (subst follow.simps) (simp add: follow_rules_not_in_body)
  show "follow_d (Suc d) g s = Some {}"
    using * by (simp add: follow_rules_not_in_body)
next
  assume w: "without_rules g n"
  then show single: "first_single g n = Some {}"
    by (intro first_single_without_rules) (auto simp: without_rules_def)
  show single_d: "first_single_d (Suc d) g n = Some {}"
    using w by (rule first_single_d_without_rules)
  show "scan_body (first_single g) h (pre @ n # post) acc =
      map_option (\<lambda>y. y - ({[]} - acc)) (scan_body (first_single g) h pre acc)"
    if "n \<noteq> h"
    using single that by (rule scan_body_stops)
  show "first g (pre @ n # post) = map_option (\<lambda>y. y - {[]}) (first g pre)"
  proof (cases "pre = []")
    case True
    then show ?thesis using single by (simp add: first_def)
  next
    case False
    then show ?thesis
      using single scan_seq_stops [of "first_single g" n "{}" pre post]
      by (simp add: first_def)
  qed
  show "first_d (Suc (Suc d)) g (pre @ n # post) =
      map_option (\<lambda>y. y - {[]}) (first_d (Suc (Suc d)) g pre)"
  proof (cases "pre = []")
    case True
    then show ?thesis using single_d by (simp del: first_single_d.simps)
  next
    case False
    then show ?thesis
      using single_d scan_seq_stops [of "first_single_d (Suc d) g" n "{}" pre post]
      by (simp del: first_single_d.simps)
  qed
  have heads: "\<forall>r\<in>set (rules g). fst r \<noteq> n"
    using w by (simp add: without_rules_def)
  show "(\<exists>y. follow g n = Some y) \<longleftrightarrow>
      (\<forall>r\<in>set (rules g). follow_calls_return (first g) (follow g) n r)"
    using heads by (subst follow.simps) (simp only: follow_rules_returns, blast)
  show "(\<exists>y. follow_d (Suc d) g n = Some y) \<longleftrightarrow>
      (\<forall>r\<in>set (rules g). follow_calls_return (first_d d g) (follow_d d g) n r)"
    using heads by (simp only: follow_d.simps follow_rules_returns) blast
qed

text \<open>The grammar \<open>A = \<epsilon>\<close>, \<open>S = A N a\<close>, with the symbol \<open>x\<close> outside it and \<open>N\<close> without rules.\<close>

theorem absent_and_ruleless_witness:
  "absent G6 ''x'' \<and> follow G6 ''x'' = Some {} \<and> follow_d 1 G6 ''x'' = Some {} \<and>
   without_rules G6 ''N'' \<and> first_single_d 1 G6 ''N'' = Some {} \<and>
   first G6 [''A''] = Some {[]} \<and> first G6 [''A'', ''N'', ''a''] = Some {} \<and>
   first_d 2 G6 [''A'', ''N'', ''a''] = Some {} \<and>
   (\<exists>y. follow G6 ''N'' = Some y) \<and> (\<exists>y. follow_d 3 G6 ''N'' = Some y)"
proof -
  have a: "absent G6 ''x''"
    by (simp add: absent_def G6_def has_terminal_def has_non_terminal_def)
  have w: "without_rules G6 ''N''"
    by (simp add: without_rules_def G6_def has_terminal_def has_non_terminal_def)
  have p: "first G6 [''A''] = Some {[]}" "first_d 2 G6 [''A''] = Some {[]}"
    by code_simp+
  have c: "\<forall>r\<in>set (rules G6). follow_calls_return (first G6) (follow G6) ''N'' r"
    by code_simp
  have c2: "\<forall>r\<in>set (rules G6). follow_calls_return (first_d 2 G6) (follow_d 2 G6) ''N'' r"
    by code_simp
  note t0 = absent_and_ruleless [of G6 "''x''" 0 "''N''" "''S''" "[''A'']" "[''a'']" "{}"]
  note t2 = absent_and_ruleless [of G6 "''x''" 2 "''N''" "''S''" "[''A'']" "[''a'']" "{}"]
  show ?thesis
    using a w p c c2 t0 t2 by (simp add: numeral_2_eq_2 numeral_3_eq_3)
qed

section \<open>C8. The empty sequence\<close>

text \<open>
  C8. For every grammar, \<open>first\<close> of the empty sequence returns the empty set, not \<open>{\<epsilon>}\<close>.
\<close>

theorem first_empty_sequence: "first g [] = Some {}"
  by (simp add: first_def)

section \<open>C9. Terminals\<close>

text \<open>
  C9, as the claim states it, fails when the empty string is itself a declared terminal:
  with terminals \<open>\<epsilon>\<close> and \<open>a\<close>, \<open>first [\<epsilon>, a]\<close> is \<open>{a}\<close>, not the set of the first
  element, and \<open>first [\<epsilon>]\<close> contains the empty symbol.
\<close>

theorem empty_terminal_first:
  "has_terminal G5 [] \<and> has_terminal G5 ''a'' \<and>
   first G5 [[], ''a''] = Some {''a''} \<and> first G5 [[]] = Some {[]}"
  by code_simp

text \<open>
  C9, amended. For every grammar and every symbol \<open>s\<close> declared as a terminal,
  \<open>first [s] = {s}\<close>; and for every non-empty sequence all of whose symbols are declared
  terminals and whose first element is not the empty string, \<open>first\<close> of the sequence is
  the set of its first element and does not contain the empty symbol.
\<close>

theorem terminal_first:
  "(has_terminal g s \<longrightarrow> first g [s] = Some {s}) \<and>
   ((\<forall>x\<in>set (s # rest). has_terminal g x) \<and> s \<noteq> [] \<longrightarrow>
      first g (s # rest) = Some {s} \<and> [] \<notin> {s})"
proof -
  have single: "first_single g s = Some {s}" if "has_terminal g s"
    using that by (subst first_single.simps) simp
  have "first g [s] = Some {s}" if "has_terminal g s"
    using single [OF that] by (auto simp: first_def Let_def)
  moreover have "first g (s # rest) = Some {s}" if "has_terminal g s" and "s \<noteq> []"
    using single [OF that(1)] that(2) by (auto simp: first_def Let_def)
  ultimately show ?thesis by auto
qed

text \<open>The terminals \<open>a\<close> and \<open>b\<close> of scenario 1.\<close>

theorem terminal_first_witness:
  "has_terminal G1 ''a'' \<and> has_terminal G1 ''b'' \<and>
   first G1 [''a''] = Some {''a''} \<and> first G1 [''a'', ''b''] = Some {''a''}"
proof -
  have t: "has_terminal G1 ''a''" "has_terminal G1 ''b''"
    by (simp_all add: has_terminal_def G1_def)
  show ?thesis
    using t terminal_first [of G1 "''a''" "[]"] terminal_first [of G1 "''a''" "[''b'']"]
    by simp
qed

section \<open>C10. Contents of the results\<close>

text \<open>
  C10, as the claim states it, fails: a symbol declared both as a terminal and as a
  non-terminal is returned by \<open>first\<close>, so a result can hold a non-terminal.
\<close>

theorem declared_twice: "has_non_terminal G8 ''S'' \<and> first G8 [''S''] = Some {''S''}"
  by code_simp

text \<open>
  C10, amended. For every grammar and every symbol sequence, every element of the set
  \<open>first\<close> returns is a declared terminal of the grammar or the empty symbol, never an
  undeclared non-empty symbol, whatever symbols the sequence holds; and whenever \<open>follow\<close>
  returns, every element of its result is a declared terminal or the empty symbol. No
  element is a non-terminal when no symbol is declared both as a terminal and as a
  non-terminal and the empty string is not declared as a non-terminal.
\<close>

theorem results_are_terminals:
  "(first g seq = Some R \<longrightarrow> (\<forall>x\<in>R. x = [] \<or> has_terminal g x)) \<and>
   (follow g nt = Some R' \<longrightarrow> (\<forall>x\<in>R'. x = [] \<or> has_terminal g x)) \<and>
   (terminals g \<inter> non_terminals g = {} \<and> [] \<notin> non_terminals g \<longrightarrow>
      (first g seq = Some R \<longrightarrow> (\<forall>x\<in>R. \<not> has_non_terminal g x)) \<and>
      (follow g nt = Some R' \<longrightarrow> (\<forall>x\<in>R'. \<not> has_non_terminal g x)))"
  using first_sub [of g seq R] follow_sub [of g nt R']
  by (auto simp: has_terminal_def has_non_terminal_def)

text \<open>The sets of scenario 1.\<close>

theorem results_are_terminals_witness:
  "first G1 [''S''] = Some {''a'', ''b''} \<and> follow G1 ''A'' = Some {''b''} \<and>
   has_terminal G1 ''a'' \<and> has_terminal G1 ''b'' \<and>
   terminals G1 \<inter> non_terminals G1 = {} \<and> [] \<notin> non_terminals G1 \<and>
   \<not> has_non_terminal G1 ''a'' \<and> \<not> has_non_terminal G1 ''b''"
proof -
  have 1: "first G1 [''S''] = Some {''a'', ''b''}" by code_simp
  have 2: "follow G1 ''A'' = Some {''b''}" by code_simp
  have 3: "terminals G1 \<inter> non_terminals G1 = {}" "[] \<notin> non_terminals G1"
    by (simp_all add: G1_def)
  show ?thesis
    using 1 2 3 results_are_terminals [of G1 "[''S'']" "{''a'', ''b''}" "''A''" "{''b''}"]
    by simp
qed

end
